theory Spec2Isabelle
  imports
    Complex_Main
    "HOL-Library.Char_ord"
    "HOL-Library.List_Lexorder"
    "HOL-Library.Multiset"
begin

section \<open>Python strings\<close>

text \<open>
  A Python \<open>str\<close> is modelled as a \<open>string\<close>, one \<open>char\<close> per code point; the model
  covers text whose code points fit a \<open>char\<close>. Case conversion is the ASCII one: the
  source converts a line only to look for ASCII keywords in it, and no other character of
  that range becomes an ASCII letter (the sharp s becomes \<open>SS\<close>, which no keyword
  contains). \<open>None\<close> is the \<open>None\<close> of \<open>option\<close>, and every exception of the source is a
  value.
\<close>

datatype py_error =
    CommandFailedError string
  | ValueError
  | AttributeError
  | KeyError string
  | ZeroDivisionError
  | OverflowError

definition startswith :: "string \<Rightarrow> string \<Rightarrow> bool" where
  "startswith s p = (take (length p) s = p)"

text \<open>\<open>partition sep s\<close>: the text before and after the first occurrence of \<open>sep\<close>.\<close>

fun partition_first :: "string \<Rightarrow> string \<Rightarrow> (string \<times> string) option" where
  "partition_first sep [] = (if sep = [] then Some ([], []) else None)"
| "partition_first sep (x # xs) =
     (if startswith (x # xs) sep then Some ([], drop (length sep) (x # xs))
      else (case partition_first sep xs of
              None \<Rightarrow> None
            | Some (b, a) \<Rightarrow> Some (x # b, a)))"

text \<open>\<open>sub in s\<close>.\<close>

definition contains :: "string \<Rightarrow> string \<Rightarrow> bool" where
  "contains s sub = (partition_first sub s \<noteq> None)"

text \<open>\<open>s.split(sep, 1)\<close>: one or two parts.\<close>

definition split1 :: "string \<Rightarrow> string \<Rightarrow> string list" where
  "split1 sep s = (case partition_first sep s of None \<Rightarrow> [s] | Some (b, a) \<Rightarrow> [b, a])"

text \<open>\<open>s.rsplit(sep, 1)\<close>: the split at the last occurrence of \<open>sep\<close>.\<close>

definition rsplit1 :: "string \<Rightarrow> string \<Rightarrow> string list" where
  "rsplit1 sep s =
     (case partition_first (rev sep) (rev s) of
        None \<Rightarrow> [s]
      | Some (b, a) \<Rightarrow> [rev a, rev b])"

text \<open>
  \<open>s.split(sep)\<close> for a non-empty \<open>sep\<close>: \<open>k\<close> counts the characters of a separator just
  found that are still to be skipped, \<open>cur\<close> is the part being read.
\<close>

fun split_go :: "string \<Rightarrow> nat \<Rightarrow> string \<Rightarrow> string \<Rightarrow> string list" where
  "split_go sep k cur [] = [cur]"
| "split_go sep k cur (x # xs) =
     (if 0 < k then split_go sep (k - 1) cur xs
      else if startswith (x # xs) sep then cur # split_go sep (length sep - 1) [] xs
      else split_go sep 0 (cur @ [x]) xs)"

definition split_all :: "string \<Rightarrow> string \<Rightarrow> string list" where
  "split_all sep s = split_go sep 0 [] s"

text \<open>The unpacking \<open>a, b = parts\<close>: a \<open>ValueError\<close> unless there are exactly two parts.\<close>

fun unpack2 :: "'a list \<Rightarrow> ('a \<times> 'a) option" where
  "unpack2 [a, b] = Some (a, b)"
| "unpack2 _ = None"

definition upper_char :: "char \<Rightarrow> char" where
  "upper_char c =
     (case map_of (zip ''abcdefghijklmnopqrstuvwxyz'' ''ABCDEFGHIJKLMNOPQRSTUVWXYZ'') c of
        Some u \<Rightarrow> u
      | None \<Rightarrow> c)"

definition lower_char :: "char \<Rightarrow> char" where
  "lower_char c =
     (case map_of (zip ''ABCDEFGHIJKLMNOPQRSTUVWXYZ'' ''abcdefghijklmnopqrstuvwxyz'') c of
        Some l \<Rightarrow> l
      | None \<Rightarrow> c)"

definition upper :: "string \<Rightarrow> string" where
  "upper s = map upper_char s"

definition lower :: "string \<Rightarrow> string" where
  "lower s = map lower_char s"

definition is_digit :: "char \<Rightarrow> bool" where
  "is_digit c = (c \<in> set ''0123456789'')"

text \<open>
  \<open>str.isspace\<close> on one character, which is also the regular expression class \<open>\s\<close>:
  tab, line feed, vertical tab, form feed, carriage return, the separators 28 to 31,
  space, and 133 and 160.
\<close>

definition is_space :: "char \<Rightarrow> bool" where
  "is_space c = (of_char c \<in> set [9, 10, 11, 12, 13, 28, 29, 30, 31, 32, 133, 160 :: nat])"

definition strip :: "string \<Rightarrow> string" where
  "strip s = rev (dropWhile is_space (rev (dropWhile is_space s)))"

text \<open>\<open>s.replace(c, "")\<close> for a one-character \<open>c\<close>.\<close>

definition remove_char :: "char \<Rightarrow> string \<Rightarrow> string" where
  "remove_char c s = filter (\<lambda>x. x \<noteq> c) s"

definition digit_val :: "char \<Rightarrow> nat" where
  "digit_val c = (case map_of (zip ''0123456789'' [0, 1, 2, 3, 4, 5, 6, 7, 8, 9]) c of
                    Some d \<Rightarrow> d
                  | None \<Rightarrow> 0)"

text \<open>\<open>int(s)\<close> on a string of decimal digits.\<close>

definition int_of_digits :: "string \<Rightarrow> nat" where
  "int_of_digits s = foldl (\<lambda>n c. 10 * n + digit_val c) 0 s"

section \<open>Regular expressions\<close>

text \<open>
  The fragment of Python's \<open>re\<close> that the patterns of the class use: literals, the
  classes \<open>.\<close>, \<open>\d\<close> and \<open>\s\<close>, a greedy \<open>*\<close> or \<open>+\<close> on a class, numbered groups,
  alternation and sequence. The matcher backtracks as \<open>re\<close> does: the alternatives
  are tried in the pattern's order, a repetition first takes as much as it can, and
  the continuation \<open>k\<close> is the rest of the pattern. A group that takes no part in the
  match has no entry in the captures (\<open>None\<close> in \<open>groups()\<close>).
\<close>

datatype cclass = AnyChar | Digit | Space

datatype rx =
    Lit string
  | Cls cclass
  | Star cclass
  | Plus cclass
  | Grp nat rx
  | Alt rx rx
  | Seq rx rx

type_synonym caps = "nat \<Rightarrow> string option"

fun cmatch :: "cclass \<Rightarrow> char \<Rightarrow> bool" where
  "cmatch AnyChar c = (c \<noteq> CHR 0x0A)"
| "cmatch Digit c = is_digit c"
| "cmatch Space c = is_space c"

fun star_match :: "cclass \<Rightarrow> string \<Rightarrow> (string \<Rightarrow> 'r option) \<Rightarrow> 'r option" where
  "star_match cl [] k = k []"
| "star_match cl (x # xs) k =
     (if cmatch cl x
      then (case star_match cl xs k of
              Some r \<Rightarrow> Some r
            | None \<Rightarrow> k (x # xs))
      else k (x # xs))"

fun rx_match :: "rx \<Rightarrow> string \<Rightarrow> caps \<Rightarrow> (string \<Rightarrow> caps \<Rightarrow> 'r option) \<Rightarrow> 'r option" where
  "rx_match (Lit l) s c k = (if startswith s l then k (drop (length l) s) c else None)"
| "rx_match (Cls cl) s c k =
     (case s of [] \<Rightarrow> None | x # xs \<Rightarrow> if cmatch cl x then k xs c else None)"
| "rx_match (Star cl) s c k = star_match cl s (\<lambda>s'. k s' c)"
| "rx_match (Plus cl) s c k =
     (case s of
        [] \<Rightarrow> None
      | x # xs \<Rightarrow> if cmatch cl x then star_match cl xs (\<lambda>s'. k s' c) else None)"
| "rx_match (Grp n r) s c k =
     rx_match r s c (\<lambda>s' c'. k s' (c'(n \<mapsto> take (length s - length s') s)))"
| "rx_match (Alt a b) s c k =
     (case rx_match a s c k of Some r \<Rightarrow> Some r | None \<Rightarrow> rx_match b s c k)"
| "rx_match (Seq a b) s c k = rx_match a s c (\<lambda>s' c'. rx_match b s' c' k)"

text \<open>\<open>re.match(r, s)\<close>: the captures of a match at the start of \<open>s\<close>.\<close>

definition re_match :: "rx \<Rightarrow> string \<Rightarrow> caps option" where
  "re_match r s = rx_match r s Map.empty (\<lambda>s' c. Some c)"

text \<open>
  \<open>re.split(r, s, 1)\<close> where it matches: the text before the leftmost match, the
  captures, and the text after the match. \<open>None\<close> when \<open>r\<close> matches nowhere (the
  source then gets the one-element list \<open>[s]\<close>).
\<close>

fun re_split1 :: "rx \<Rightarrow> string \<Rightarrow> (string \<times> caps \<times> string) option" where
  "re_split1 r [] =
     (case rx_match r [] Map.empty (\<lambda>s' c. Some (c, s')) of
        Some (c, a) \<Rightarrow> Some ([], c, a)
      | None \<Rightarrow> None)"
| "re_split1 r (x # xs) =
     (case rx_match r (x # xs) Map.empty (\<lambda>s' c. Some (c, s')) of
        Some (c, a) \<Rightarrow> Some ([], c, a)
      | None \<Rightarrow>
          (case re_split1 r xs of
             Some (b, c, a) \<Rightarrow> Some (x # b, c, a)
           | None \<Rightarrow> None))"

fun seqs :: "rx list \<Rightarrow> rx" where
  "seqs [] = Lit []"
| "seqs [r] = r"
| "seqs (r # rs) = Seq r (seqs rs)"

text \<open>
  Two notions for reasoning about a match: the group numbers of a pattern, and what a
  pattern guarantees about the captures it hands to the rest of the match (\<open>R\<close> relates
  the captures before the pattern to those after it).
\<close>

fun grps :: "rx \<Rightarrow> nat set" where
  "grps (Lit l) = {}"
| "grps (Cls cl) = {}"
| "grps (Star cl) = {}"
| "grps (Plus cl) = {}"
| "grps (Grp n r) = insert n (grps r)"
| "grps (Alt a b) = grps a \<union> grps b"
| "grps (Seq a b) = grps a \<union> grps b"

definition rx_ensures :: "rx \<Rightarrow> (caps \<Rightarrow> caps \<Rightarrow> bool) \<Rightarrow> bool" where
  "rx_ensures r R =
     (\<forall>s c (k :: string \<Rightarrow> caps \<Rightarrow> caps option) res.
        rx_match r s c k = Some res \<longrightarrow> (\<exists>s' c'. k s' c' = Some res \<and> R c c'))"

section \<open>The patterns of the class\<close>

text \<open>\<open>log_time_regexp = re.compile(".*\((\d+)\).*")\<close>\<close>

definition log_time_regexp :: rx where
  "log_time_regexp =
     seqs [Star AnyChar, Lit ''('', Grp 1 (Plus Digit), Lit '')'', Star AnyChar]"

text \<open>\<open>chat_regexp: CHAT\[((Team)|(Unit))\]\[(.*)\(((Allies)|(Axis))/(\d+)\)\]: (.*)\<close>\<close>

definition chat_regexp :: rx where
  "chat_regexp =
     seqs [Lit ''CHAT['', Grp 1 (Alt (Grp 2 (Lit ''Team'')) (Grp 3 (Lit ''Unit''))),
           Lit '']['', Grp 4 (Star AnyChar),
           Lit ''('', Grp 5 (Alt (Grp 6 (Lit ''Allies'')) (Grp 7 (Lit ''Axis''))),
           Lit ''/'', Grp 8 (Plus Digit), Lit '')]: '', Grp 9 (Star AnyChar)]"

text \<open>\<open>player_info_pattern: (.*)\(((Allies)|(Axis))/(\d+)\)\<close>\<close>

definition player_info_regexp :: rx where
  "player_info_regexp =
     seqs [Grp 1 (Star AnyChar),
           Lit ''('', Grp 2 (Alt (Grp 3 (Lit ''Allies'')) (Grp 4 (Lit ''Axis''))),
           Lit ''/'', Grp 5 (Plus Digit), Lit '')'']"

text \<open>\<open>player_info_pattern + " -> "\<close>, the pattern a kill line is split at.\<close>

definition kill_split_regexp :: rx where
  "kill_split_regexp = Seq player_info_regexp (Lit '' -> '')"

text \<open>\<open>VOTE Player \[(.*)\].* against \[(.*)\]\. VoteID: \[\d+\]\<close>\<close>

definition vote_started_regexp :: rx where
  "vote_started_regexp =
     seqs [Lit ''VOTE Player ['', Grp 1 (Star AnyChar), Lit '']'', Star AnyChar,
           Lit '' against ['', Grp 2 (Star AnyChar), Lit '']. VoteID: ['', Plus Digit,
           Lit '']'']"

text \<open>\<open>VOTE Player \[(.*)\] voted.*\<close>\<close>

definition voted_regexp :: rx where
  "voted_regexp =
     seqs [Lit ''VOTE Player ['', Grp 1 (Star AnyChar), Lit ''] voted'', Star AnyChar]"

text \<open>\<open>VOTE Vote Kick \{(.*)\}.*\<close>\<close>

definition vote_kick_regexp :: rx where
  "vote_kick_regexp =
     seqs [Lit ''VOTE Vote Kick {'', Grp 1 (Star AnyChar), Lit ''}'', Star AnyChar]"

text \<open>\<open>\[(.*)\s{1}\((\d+)\)\]\<close>\<close>

definition camera_regexp :: rx where
  "camera_regexp =
     seqs [Lit ''['', Grp 1 (Star AnyChar), Cls Space, Lit ''('', Grp 2 (Plus Digit),
           Lit '')]'']"

text \<open>\<open>TEAMSWITCH\s(.*)\s\(((.*)\s>\s(.*))\)\<close>\<close>

definition teamswitch_regexp :: rx where
  "teamswitch_regexp =
     seqs [Lit ''TEAMSWITCH'', Cls Space, Grp 1 (Star AnyChar), Cls Space, Lit ''('',
           Grp 2 (seqs [Grp 3 (Star AnyChar), Cls Space, Lit ''>'', Cls Space,
                        Grp 4 (Star AnyChar)]),
           Lit '')'']"

text \<open>
  \<open>KICK:\s\[(.*)\]\s(has been kicked. \[((KICKED)|(BANNED FOR 2 HOURS)) FOR TEAM KILLING!\])\<close>;
  the dot after \<open>kicked\<close> is the class \<open>.\<close>, as the source writes it.
\<close>

definition kick_regexp :: rx where
  "kick_regexp =
     seqs [Lit ''KICK:'', Cls Space, Lit ''['', Grp 1 (Star AnyChar), Lit '']'', Cls Space,
           Grp 2 (seqs [Lit ''has been kicked'', Cls AnyChar, Lit '' ['',
                        Grp 3 (Alt (Grp 4 (Lit ''KICKED''))
                                   (Grp 5 (Lit ''BANNED FOR 2 HOURS''))),
                        Lit '' FOR TEAM KILLING!]''])]"

section \<open>The log parser\<close>

definition LOG_ACTIONS :: "string list" where
  "LOG_ACTIONS =
     [''DISCONNECTED'', ''CHAT[Allies]'', ''CHAT[Axis]'', ''CHAT[Allies][Unit]'', ''KILL'',
      ''CONNECTED'', ''CHAT[Allies][Team]'', ''CHAT[Axis][Team]'', ''CHAT[Axis][Unit]'',
      ''CHAT'', ''VOTE COMPLETED'', ''VOTE STARTED'', ''VOTE'', ''TEAMSWITCH'', ''TK'',
      ''TK KICKED'', ''TK BANNED FOR 2 HOURS'', ''MATCH'', ''MATCH START'',
      ''MATCH ENDED'']"

text \<open>
  \<open>datetime.fromtimestamp(n)\<close> is the platform's: it raises once \<open>n\<close> is past the last
  second of the year 9999. A \<open>datetime\<close> is modelled by its epoch seconds (a process
  whose local time is UTC), so \<open>time.timestamp()\<close> gives \<open>n\<close> back.
\<close>

definition fromtimestamp :: "nat \<Rightarrow> nat option" where
  "fromtimestamp n = (if n \<le> 253402300799 then Some n else None)"

text \<open>\<open>Rcon._extract_time\<close>; every exception it raises is \<open>None\<close>.\<close>

definition extract_time :: "string \<Rightarrow> nat option" where
  "extract_time time_str =
     (case re_match log_time_regexp time_str of
        None \<Rightarrow> None
      | Some groups \<Rightarrow>
          (case groups 1 of
             None \<Rightarrow> None
           | Some g \<Rightarrow> fromtimestamp (int_of_digits g)))"

text \<open>The local variables of one turn of the loop of \<open>parse_logs\<close>.\<close>

record line_vars =
  l_time :: nat
  l_rest :: string
  l_action :: "string option"
  l_content :: string
  l_sub_content :: "string option"
  l_player :: "string option"
  l_player2 :: "string option"
  l_weapon :: "string option"
  l_steam_id_64_1 :: "string option"
  l_steam_id_64_2 :: "string option"

text \<open>How an f-string prints a value that may be \<open>None\<close>.\<close>

definition fmt :: "string option \<Rightarrow> string" where
  "fmt v = (case v of None \<Rightarrow> ''None'' | Some s \<Rightarrow> s)"

text \<open>
  The branches of the dispatch on \<open>rest\<close>. Each gives the variables it assigns, or
  \<open>None\<close> where the source raises (the loop's \<open>except\<close> then skips the line).
\<close>

definition parse_connected :: "line_vars \<Rightarrow> line_vars option" where
  "parse_connected v =
     (case unpack2 (split1 '' '' (l_rest v)) of
        None \<Rightarrow> None
      | Some (a, c) \<Rightarrow> Some (v\<lparr>l_action := Some a, l_content := c\<rparr>))"

definition parse_kill_head :: "line_vars \<Rightarrow> line_vars option" where
  "parse_kill_head v =
     (case unpack2 (split1 '': '' (l_rest v)) of
        None \<Rightarrow> None
      | Some (a, c) \<Rightarrow> Some (v\<lparr>l_action := Some a, l_content := c\<rparr>))"

definition parse_chat :: "line_vars \<Rightarrow> line_vars option" where
  "parse_chat v =
     (case re_match chat_regexp (l_rest v) of
        None \<Rightarrow> None
      | Some groups \<Rightarrow>
          (let scope = groups 1;
               side = groups 5;
               player = groups 4;
               steam_id_64_1 = groups 8;
               sub_content = groups 9
           in Some (v\<lparr>l_player := player,
                      l_steam_id_64_1 := steam_id_64_1,
                      l_action := Some (''CHAT['' @ fmt side @ '']['' @ fmt scope @ '']''),
                      l_sub_content := sub_content,
                      l_content := fmt player @ '': '' @ fmt sub_content @ '' ('' @
                                   fmt steam_id_64_1 @ '')''\<rparr>)))"

definition parse_vote :: "line_vars \<Rightarrow> line_vars option" where
  "parse_vote v =
     (let rest = l_rest v;
          tail = last (split_all ''VOTE'' rest);
          fin = (\<lambda>w. Some (w\<lparr>l_sub_content := Some tail, l_content := tail\<rparr>))
      in if startswith rest ''VOTE Player'' \<and> contains (lower rest) '' against '' then
           (case re_match vote_started_regexp rest of
              None \<Rightarrow> None
            | Some groups \<Rightarrow>
                fin (v\<lparr>l_action := Some ''VOTE STARTED'', l_player := groups 1,
                        l_player2 := groups 2\<rparr>))
         else if startswith rest ''VOTE Player'' \<and> contains (lower rest) ''voted'' then
           (case re_match voted_regexp rest of
              None \<Rightarrow> None
            | Some groups \<Rightarrow> fin (v\<lparr>l_action := Some ''VOTE'', l_player := groups 1\<rparr>))
         else if contains (lower rest) ''completed'' then
           fin (v\<lparr>l_action := Some ''VOTE COMPLETED''\<rparr>)
         else if contains (lower rest) ''kick'' then
           (case re_match vote_kick_regexp rest of
              None \<Rightarrow> None
            | Some groups \<Rightarrow>
                fin (v\<lparr>l_action := Some ''VOTE COMPLETED'', l_player := groups 1\<rparr>))
         else fin (v\<lparr>l_action := Some ''VOTE'', l_player := Some [], l_player2 := None\<rparr>))"

definition parse_camera :: "line_vars \<Rightarrow> line_vars option" where
  "parse_camera v =
     (case unpack2 (split1 '' '' (l_rest v)) of
        None \<Rightarrow> None
      | Some (u, content) \<Rightarrow>
          (let w = v\<lparr>l_action := Some ''CAMERA'', l_content := content\<rparr>
           in case re_match camera_regexp content of
                None \<Rightarrow> Some w
              | Some groups \<Rightarrow>
                  (case unpack2 (rsplit1 '']'' content) of
                     None \<Rightarrow> None
                   | Some (u', sub_content) \<Rightarrow>
                       Some (w\<lparr>l_player := groups 1, l_steam_id_64_1 := groups 2,
                               l_sub_content := Some sub_content\<rparr>))))"

definition parse_teamswitch :: "line_vars \<Rightarrow> line_vars option" where
  "parse_teamswitch v =
     (let w = v\<lparr>l_action := Some ''TEAMSWITCH''\<rparr>
      in case re_match teamswitch_regexp (l_rest v) of
           None \<Rightarrow> Some w
         | Some groups \<Rightarrow> Some (w\<lparr>l_player := groups 1, l_sub_content := groups 2\<rparr>))"

definition parse_kick :: "line_vars \<Rightarrow> line_vars option" where
  "parse_kick v =
     (case re_match kick_regexp (l_rest v) of
        None \<Rightarrow> Some v
      | Some groups \<Rightarrow>
          Some (v\<lparr>l_player := groups 1, l_sub_content := groups 2,
                  l_action := Some (''TK '' @ fmt (groups 3))\<rparr>))"

definition parse_match_start :: "line_vars \<Rightarrow> line_vars option" where
  "parse_match_start v =
     (case unpack2 (split_all ''MATCH START '' (l_rest v)) of
        None \<Rightarrow> None
      | Some (u, sub_content) \<Rightarrow>
          Some (v\<lparr>l_action := Some ''MATCH START'', l_sub_content := Some sub_content\<rparr>))"

definition parse_match_ended :: "line_vars \<Rightarrow> line_vars option" where
  "parse_match_ended v =
     (case unpack2 (split_all ''MATCH ENDED '' (l_rest v)) of
        None \<Rightarrow> None
      | Some (u, sub_content) \<Rightarrow>
          Some (v\<lparr>l_action := Some ''MATCH ENDED'', l_sub_content := Some sub_content\<rparr>))"

text \<open>
  The \<open>if\<close>/\<open>elif\<close> chain, in the source's order. The last branch is the source's
  \<open>continue\<close> on a line of unknown type; like an exception it leaves the loop's sets
  as they were, so both are \<open>None\<close>.
\<close>

definition dispatch :: "line_vars \<Rightarrow> line_vars option" where
  "dispatch v =
     (let rest = l_rest v in
      if startswith rest ''DISCONNECTED'' \<or> startswith rest ''CONNECTED'' then parse_connected v
      else if startswith rest ''KILL'' \<or> startswith rest ''TEAM KILL'' then parse_kill_head v
      else if startswith rest ''CHAT'' then parse_chat v
      else if startswith rest ''VOTE'' then parse_vote v
      else if startswith (upper rest) ''PLAYER'' then parse_camera v
      else if startswith (upper rest) ''TEAMSWITCH'' then parse_teamswitch v
      else if startswith (upper rest) ''KICK'' \<and> contains rest ''FOR TEAM KILLING''
        then parse_kick v
      else if startswith (upper rest) ''MATCH START'' then parse_match_start v
      else if startswith (upper rest) ''MATCH ENDED'' then parse_match_ended v
      else None)"

text \<open>\<open>if action in {"CONNECTED", "DISCONNECTED"}: player = content\<close>\<close>

definition set_connected_player :: "line_vars \<Rightarrow> line_vars" where
  "set_connected_player v =
     (if l_action v \<in> {Some ''CONNECTED'', Some ''DISCONNECTED''}
      then v\<lparr>l_player := Some (l_content v)\<rparr> else v)"

text \<open>
  \<open>if action in {"KILL", "TEAM KILL"}\<close>: the content is split at the killer's player
  info followed by the arrow; \<open>parts[1]\<close> is the first group, \<open>parts[-2]\<close> the last
  group and \<open>parts[-1]\<close> the text after the match. Without a match \<open>parts[1]\<close> raises.
\<close>

definition parse_kill :: "line_vars \<Rightarrow> line_vars option" where
  "parse_kill v =
     (if l_action v \<in> {Some ''KILL'', Some ''TEAM KILL''} then
        (case re_split1 kill_split_regexp (l_content v) of
           None \<Rightarrow> None
         | Some (before, groups, after) \<Rightarrow>
             (case unpack2 (rsplit1 '' with '' after) of
                None \<Rightarrow> None
              | Some (player2, weapon) \<Rightarrow>
                  (case re_match player_info_regexp player2 of
                     None \<Rightarrow> None
                   | Some groups2 \<Rightarrow>
                       Some (v\<lparr>l_player := groups 1, l_steam_id_64_1 := groups 5,
                               l_player2 := groups2 1, l_weapon := Some weapon,
                               l_steam_id_64_2 := groups2 5\<rparr>))))
      else Some v)"

text \<open>
  The body of the \<open>try\<close> up to the updates of the sets: \<open>None\<close> when the line is
  skipped, by an exception or by the \<open>continue\<close> of the unknown type.
\<close>

definition parse_line :: "string \<Rightarrow> line_vars option" where
  "parse_line line =
     (case unpack2 (split1 ''] '' line) of
        None \<Rightarrow> None
      | Some (time, rest) \<Rightarrow>
          (case extract_time (drop 1 time) of
             None \<Rightarrow> None
           | Some t \<Rightarrow>
               (case dispatch \<lparr>l_time = t, l_rest = rest, l_action = None, l_content = rest,
                                l_sub_content = None, l_player = None, l_player2 = None,
                                l_weapon = None, l_steam_id_64_1 = None,
                                l_steam_id_64_2 = None\<rparr> of
                  None \<Rightarrow> None
                | Some v \<Rightarrow> parse_kill (set_connected_player v))))"

text \<open>One entry of \<open>res\<close>, with the keys of the source's dictionary.\<close>

record event =
  version :: nat
  timestamp_ms :: int
  relative_time_ms :: rat
  raw :: string
  line_without_time :: string
  action :: "string option"
  player :: "string option"
  steam_id_64_1 :: "string option"
  player2 :: "string option"
  steam_id_64_2 :: "string option"
  weapon :: "string option"
  message :: string
  sub_content :: "string option"

text \<open>
  \<open>now\<close> is the reading of the clock that \<open>parse_logs\<close> takes when it starts, in
  microseconds since the epoch; \<open>(time - now).total_seconds() * 1000\<close> is kept as the
  exact quotient.
\<close>

definition make_event :: "int \<Rightarrow> string \<Rightarrow> line_vars \<Rightarrow> event" where
  "make_event now line v =
     \<lparr>version = 1,
      timestamp_ms = int (l_time v) * 1000,
      relative_time_ms = of_int (int (l_time v) * 1000000 - now) / 1000,
      raw = line,
      line_without_time = l_rest v,
      action = l_action v,
      player = l_player v,
      steam_id_64_1 = l_steam_id_64_1 v,
      player2 = l_player2 v,
      steam_id_64_2 = l_steam_id_64_2 v,
      weapon = l_weapon v,
      message = l_content v,
      sub_content = l_sub_content v\<rparr>"

text \<open>
  \<open>if filter_action and not action.startswith(filter_action): continue\<close>. The test
  stands after the \<open>try\<close>: with a filter given and \<open>action\<close> still \<open>None\<close>, the
  \<open>AttributeError\<close> of \<open>None.startswith\<close> leaves \<open>parse_logs\<close>.
\<close>

definition action_filtered :: "string option \<Rightarrow> string option \<Rightarrow> py_error + bool" where
  "action_filtered filter_action a =
     (case filter_action of
        None \<Rightarrow> Inr False
      | Some f \<Rightarrow>
          if f = [] then Inr False
          else (case a of
                  None \<Rightarrow> Inl AttributeError
                | Some s \<Rightarrow> Inr (\<not> startswith s f)))"

text \<open>\<open>if filter_player and filter_player not in line: continue\<close>\<close>

definition player_filtered :: "string option \<Rightarrow> string \<Rightarrow> bool" where
  "player_filtered filter_player line =
     (case filter_player of
        None \<Rightarrow> False
      | Some f \<Rightarrow> f \<noteq> [] \<and> \<not> contains line f)"

text \<open>
  The loop over the lines. The sets \<open>actions\<close> and \<open>players\<close> are kept as lists
  without repetition (\<open>List.insert\<close> is \<open>set.add\<close>); the order in which Python
  enumerates a set is not fixed by the language, and the statements below about the
  two sets read them through \<open>set\<close>.
\<close>

fun parse_loop ::
  "int \<Rightarrow> string option \<Rightarrow> string option \<Rightarrow> string list \<Rightarrow>
   event list \<Rightarrow> string option list \<Rightarrow> string option list \<Rightarrow>
   py_error + (event list \<times> string option list \<times> string option list)" where
  "parse_loop now filter_action filter_player [] res acts plrs = Inr (res, acts, plrs)"
| "parse_loop now filter_action filter_player (line # ls) res acts plrs =
     (if line = [] then parse_loop now filter_action filter_player ls res acts plrs
      else
        (case parse_line line of
           None \<Rightarrow> parse_loop now filter_action filter_player ls res acts plrs
         | Some v \<Rightarrow>
             (let plrs' = List.insert (l_player2 v) (List.insert (l_player v) plrs);
                  acts' = List.insert (l_action v) acts
              in case action_filtered filter_action (l_action v) of
                   Inl e \<Rightarrow> Inl e
                 | Inr True \<Rightarrow> parse_loop now filter_action filter_player ls res acts' plrs'
                 | Inr False \<Rightarrow>
                     if player_filtered filter_player line
                     then parse_loop now filter_action filter_player ls res acts' plrs'
                     else parse_loop now filter_action filter_player ls
                            (res @ [make_event now line v]) acts' plrs')))"

record log_batch =
  actions :: "string option list"
  players :: "string option list"
  logs :: "event list"

definition parse_logs ::
  "int \<Rightarrow> string \<Rightarrow> string option \<Rightarrow> string option \<Rightarrow> py_error + log_batch" where
  "parse_logs now raw_text filter_action filter_player =
     (case parse_loop now filter_action filter_player (split_all [CHR 0x0A] raw_text) [] [] [] of
        Inl e \<Rightarrow> Inl e
      | Inr (res, acts, plrs) \<Rightarrow>
          Inr \<lparr>actions = acts @ map Some LOG_ACTIONS, players = plrs, logs = rev res\<rparr>)"

text \<open>
  Modelled from the spec: the closed action vocabulary of the data model (section 3 of the
  specification; the source has no such table, only \<open>LOG_ACTIONS\<close>), with
  \<open>CHAT[<side>][<scope>]\<close> written out for the sides \<open>Allies\<close> and \<open>Axis\<close> and the
  scopes \<open>Team\<close> and \<open>Unit\<close>.
\<close>

definition closed_vocabulary :: "string list" where
  "closed_vocabulary =
     [''CONNECTED'', ''DISCONNECTED'', ''KILL'', ''TEAM KILL'',
      ''CHAT[Allies][Team]'', ''CHAT[Allies][Unit]'', ''CHAT[Axis][Team]'',
      ''CHAT[Axis][Unit]'', ''VOTE'', ''VOTE STARTED'', ''VOTE COMPLETED'', ''CAMERA'',
      ''TEAMSWITCH'', ''TK KICKED'', ''TK BANNED FOR 2 HOURS'', ''MATCH START'',
      ''MATCH ENDED'']"

text \<open>
  The action of a line of the connection and kill branches is the text of the line up to
  the first separator, whatever follows the keyword in it: a text that starts with one of
  the four keywords.
\<close>

definition family_action :: "string \<Rightarrow> bool" where
  "family_action a =
     (startswith a ''CONNECTED'' \<or> startswith a ''DISCONNECTED'' \<or> startswith a ''KILL'' \<or>
      startswith a ''TEAM KILL'')"

text \<open>
  What one line adds to \<open>res\<close>: nothing when it is empty, skipped or filtered out. The
  \<open>AttributeError\<close> of the action filter is not a value of this function: it ends the
  whole call.
\<close>

definition emitted_event ::
  "int \<Rightarrow> string option \<Rightarrow> string option \<Rightarrow> string \<Rightarrow> event option" where
  "emitted_event now filter_action filter_player line =
     (if line = [] then None
      else (case parse_line line of
              None \<Rightarrow> None
            | Some v \<Rightarrow>
                (case action_filtered filter_action (l_action v) of
                   Inr False \<Rightarrow>
                     if player_filtered filter_player line then None
                     else Some (make_event now line v)
                 | _ \<Rightarrow> None)))"

text \<open>An event, and a batch, with the time relative to the clock left out.\<close>

definition without_relative_time :: "event \<Rightarrow> event" where
  "without_relative_time e = e\<lparr>relative_time_ms := 0\<rparr>"

definition batch_without_relative_time :: "log_batch \<Rightarrow> log_batch" where
  "batch_without_relative_time b = b\<lparr>logs := map without_relative_time (logs b)\<rparr>"

section \<open>The VIP list\<close>

record vip =
  steam_id_64 :: string
  name :: string

text \<open>
  One turn of the loop of \<open>get_vip_ids\<close>: \<open>item.split(" ", 1)\<close> unpacked into two
  names (a \<open>ValueError\<close>, raised again after the reconnect, when the item has no space),
  then the three clean-ups of the name.
\<close>

definition parse_vip_item :: "string \<Rightarrow> py_error + vip" where
  "parse_vip_item item =
     (case unpack2 (split1 '' '' item) of
        None \<Rightarrow> Inl ValueError
      | Some (sid, nm) \<Rightarrow>
          Inr \<lparr>steam_id_64 = sid,
               name = strip (remove_char (CHR 0x0A) (remove_char (CHR 0x22) nm))\<rparr>)"

fun vip_loop :: "string list \<Rightarrow> vip list \<Rightarrow> py_error + vip list" where
  "vip_loop [] l = Inr l"
| "vip_loop (item # res) l =
     (case parse_vip_item item of
        Inl e \<Rightarrow> Inl e
      | Inr d \<Rightarrow> vip_loop res (l @ [d]))"

text \<open>
  \<open>get_vip_ids\<close> on the list \<open>res\<close> that the server returned. Python's \<open>sorted\<close> is
  stable and ascending, as \<open>sort_key\<close> is; strings compare by code point, shorter
  prefix first.
\<close>

definition get_vip_ids :: "string list \<Rightarrow> py_error + vip list" where
  "get_vip_ids res =
     (case vip_loop res [] of
        Inl e \<Rightarrow> Inl e
      | Inr l \<Rightarrow> Inr (sort_key name l))"

section \<open>Floats\<close>

text \<open>
  A Python float that is finite and not negative: the double \<open>mantissa * 2 ^ exponent\<close>.
  \<open>float_value\<close> is the number it stands for; floats compare as these numbers do.
\<close>

record py_float =
  mantissa :: nat
  exponent :: int

definition pow2 :: "int \<Rightarrow> rat" where
  "pow2 k = (if 0 \<le> k then 2 ^ nat k else 1 / 2 ^ nat (- k))"

definition float_value :: "py_float \<Rightarrow> rat" where
  "float_value x = of_nat (mantissa x) * pow2 (exponent x)"

text \<open>\<open>n.bit_length()\<close>.\<close>

fun bit_length :: "nat \<Rightarrow> nat" where
  "bit_length n = (if n = 0 then 0 else Suc (bit_length (n div 2)))"

declare bit_length.simps [simp del]

text \<open>The integer nearest to \<open>n / d\<close>, the even one of the two when \<open>n / d\<close> is half-way.\<close>

definition round_half_even :: "nat \<Rightarrow> nat \<Rightarrow> nat" where
  "round_half_even n d =
     (let f = n div d; r = n mod d
      in if 2 * r < d then f
         else if d < 2 * r then f + 1
         else if even f then f else f + 1)"

text \<open>
  \<open>a / b\<close> for two integers, \<open>a\<close> not negative and \<open>b\<close> positive: the true division of
  Python 3 gives the double nearest to the exact quotient, the one with the even mantissa
  when the quotient is half-way between two doubles. \<open>fl\<close> is the exponent of the leading
  bit of the quotient (the difference of the bit lengths, or one less); a double has 53
  bits of mantissa and its unit is never below \<open>2 ^ -1074\<close>, the unit of the subnormal
  doubles. The exponent is not bounded from above here: \<open>py_truediv\<close> does that.
\<close>

definition float_quotient :: "nat \<Rightarrow> nat \<Rightarrow> py_float" where
  "float_quotient a b =
     (if a = 0 then \<lparr>mantissa = 0, exponent = - 1074\<rparr>
      else
        (let c = int (bit_length a) - int (bit_length b);
             fl = (if (if 0 \<le> c then b * 2 ^ nat c \<le> a else b \<le> a * 2 ^ nat (- c))
                   then c else c - 1);
             e = max (fl - 52) (- 1074);
             m = (if 0 \<le> e then round_half_even a (b * 2 ^ nat e)
                  else round_half_even (a * 2 ^ nat (- e)) b)
         in \<lparr>mantissa = m, exponent = e\<rparr>))"

text \<open>
  \<open>a / b\<close> as Python evaluates it: \<open>ZeroDivisionError\<close> for a zero divisor and
  \<open>OverflowError\<close> when the nearest double would be \<open>2 ^ 1024\<close> or more.
\<close>

definition py_truediv :: "nat \<Rightarrow> nat \<Rightarrow> py_error + py_float" where
  "py_truediv a b =
     (if b = 0 then Inl ZeroDivisionError
      else if pow2 1024 \<le> float_value (float_quotient a b) then Inl OverflowError
      else Inr (float_quotient a b))"

definition digit_char :: "nat \<Rightarrow> char" where
  "digit_char d = ''0123456789'' ! d"

text \<open>\<open>str(n)\<close> for an integer that is not negative.\<close>

fun nat_digits :: "nat \<Rightarrow> string" where
  "nat_digits n = (if n < 10 then [digit_char n] else nat_digits (n div 10) @ [digit_char (n mod 10)])"

declare nat_digits.simps [simp del]

text \<open>
  \<open>"%.2f" % x\<close>: the decimal with two digits after the point that is nearest to the
  value of the float, the even one when the value is half-way; \<open>n\<close> is that decimal in
  hundredths.
\<close>

definition format_2f :: "py_float \<Rightarrow> string" where
  "format_2f x =
     (let n = (if 0 \<le> exponent x then mantissa x * 100 * 2 ^ nat (exponent x)
               else round_half_even (mantissa x * 100) (2 ^ nat (- exponent x)))
      in nat_digits (n div 100) @ ''.'' @ [digit_char (n mod 100 div 10), digit_char (n mod 10)])"

section \<open>The scoreboard\<close>

text \<open>
  An entry of the scoreboard while it is built and sorted; the ratio is the float that
  \<open>kills / max(death, 1)\<close> gave.
\<close>

record score =
  s_player :: string
  real_kills :: nat
  real_death :: nat
  ratio :: py_float

text \<open>The entry as returned: the ratio replaced by its text, \<open>"%.2f" % ratio\<close>.\<close>

record score_out =
  o_player :: string
  o_real_kills :: nat
  o_real_death :: nat
  o_ratio :: string

text \<open>The inner loop: a kill where the player is \<open>player\<close>, else a death where it is \<open>player2\<close>.\<close>

fun count_logs :: "string \<Rightarrow> event list \<Rightarrow> nat \<Rightarrow> nat \<Rightarrow> nat \<times> nat" where
  "count_logs p [] kills death = (kills, death)"
| "count_logs p (lg # ls) kills death =
     (if player lg = Some p then count_logs p ls (kills + 1) death
      else if player2 lg = Some p then count_logs p ls kills (death + 1)
      else count_logs p ls kills death)"

text \<open>
  The outer loop over \<open>logs["players"]\<close>; \<open>if not player\<close> skips \<open>None\<close> and the empty
  name. An exception of the division leaves the loop.
\<close>

fun scoreboard_loop ::
  "string option list \<Rightarrow> event list \<Rightarrow> score list \<Rightarrow> py_error + score list" where
  "scoreboard_loop [] ls scoreboard = Inr scoreboard"
| "scoreboard_loop (None # ps) ls scoreboard = scoreboard_loop ps ls scoreboard"
| "scoreboard_loop (Some p # ps) ls scoreboard =
     (if p = [] then scoreboard_loop ps ls scoreboard
      else
        (case count_logs p ls 0 0 of
           (kills, death) \<Rightarrow>
             if kills = 0 \<and> death = 0 then scoreboard_loop ps ls scoreboard
             else
               (case py_truediv kills (max death 1) of
                  Inl e \<Rightarrow> Inl e
                | Inr r \<Rightarrow>
                    scoreboard_loop ps ls
                      (scoreboard @
                       [\<lparr>s_player = p, real_kills = kills, real_death = death, ratio = r\<rparr>]))))"

text \<open>
  \<open>sorted(xs, key=f, reverse=True)\<close>: CPython reverses the list, sorts it stably in
  ascending order and reverses the result, so equal keys keep the order of \<open>xs\<close>.
\<close>

definition sorted_reverse :: "('a \<Rightarrow> 'k::linorder) \<Rightarrow> 'a list \<Rightarrow> 'a list" where
  "sorted_reverse f xs = rev (sort_key f (rev xs))"

text \<open>
  \<open>sorted(scoreboard, key=lambda o: o[sort], reverse=True)\<close>: the key is one of the four
  keys of an entry, the ratio being still the float; any other key raises a \<open>KeyError\<close>
  as soon as there is an entry to ask.
\<close>

definition sort_scoreboard :: "string \<Rightarrow> score list \<Rightarrow> py_error + score list" where
  "sort_scoreboard sort' scoreboard =
     (if sort' = ''player'' then Inr (sorted_reverse s_player scoreboard)
      else if sort' = ''(real) kills'' then Inr (sorted_reverse real_kills scoreboard)
      else if sort' = ''(real) death'' then Inr (sorted_reverse real_death scoreboard)
      else if sort' = ''ratio'' then Inr (sorted_reverse (\<lambda>o'. float_value (ratio o')) scoreboard)
      else if scoreboard = [] then Inr [] else Inl (KeyError sort'))"

definition format_score :: "score \<Rightarrow> score_out" where
  "format_score o' =
     \<lparr>o_player = s_player o', o_real_kills = real_kills o', o_real_death = real_death o',
      o_ratio = format_2f (ratio o')\<rparr>"

text \<open>
  \<open>get_scoreboard\<close> on the batch \<open>batch\<close> that \<open>get_structured_logs(minutes, "KILL")\<close>
  returned.
\<close>

definition get_scoreboard :: "log_batch \<Rightarrow> string \<Rightarrow> py_error + score_out list" where
  "get_scoreboard batch sort' =
     (case scoreboard_loop (players batch) (logs batch) [] of
        Inl e \<Rightarrow> Inl e
      | Inr scoreboard \<Rightarrow>
          (case sort_scoreboard sort' scoreboard of
             Inl e \<Rightarrow> Inl e
           | Inr sorted_scoreboard \<Rightarrow> Inr (map format_score sorted_scoreboard)))"

text \<open>
  For the statements about the scoreboard: the float that the counts of a returned entry
  give, the entry one player of the batch contributes (none for \<open>None\<close>, the empty name,
  or a player without kill or death), the entries of the batch in the order of
  \<open>logs["players"]\<close>, that is before they are sorted, and the four keys of an entry.
\<close>

definition ratio_of :: "score_out \<Rightarrow> py_float" where
  "ratio_of o' = float_quotient (o_real_kills o') (max (o_real_death o') 1)"

definition score_entry :: "event list \<Rightarrow> string option \<Rightarrow> score option" where
  "score_entry ls p =
     (case p of
        None \<Rightarrow> None
      | Some q \<Rightarrow>
          if q = [] then None
          else (case count_logs q ls 0 0 of
                  (kills, death) \<Rightarrow>
                    if kills = 0 \<and> death = 0 then None
                    else Some \<lparr>s_player = q, real_kills = kills, real_death = death,
                               ratio = float_quotient kills (max death 1)\<rparr>))"

definition unsorted_scoreboard :: "log_batch \<Rightarrow> score_out list" where
  "unsorted_scoreboard batch =
     map format_score (List.map_filter (score_entry (logs batch)) (players batch))"

definition sort_keys :: "string list" where
  "sort_keys = [''player'', ''(real) kills'', ''(real) death'', ''ratio'']"

section \<open>The map rotation\<close>

text \<open>The two remote commands that \<open>set_maprotation\<close> issues, through the wrappers of the class.\<close>

datatype rot_op = RotAdd string | RotDel string

text \<open>
  Modelled from the spec: the server's side of \<open>do_add_map_to_rotation\<close> and
  \<open>do_remove_map_from_rotation\<close> (\<open>ServerCtl\<close>, in \<open>rcon.commands\<close>, is not among the
  sources). The rotation is an ordered list; an add puts the map at the end, a remove
  takes the map's first occurrence out and fails (\<open>None\<close>) when the map is not there.
\<close>

fun apply_op :: "rot_op \<Rightarrow> string list \<Rightarrow> string list option" where
  "apply_op (RotAdd m) rot = Some (rot @ [m])"
| "apply_op (RotDel m) rot = (if m \<in> set rot then Some (remove1 m rot) else None)"

text \<open>
  The rotations the server goes through, one after each command; a command that fails
  raises in the caller, so the commands after it are not sent.
\<close>

fun run_ops :: "rot_op list \<Rightarrow> string list \<Rightarrow> string list list" where
  "run_ops [] rot = []"
| "run_ops (c # cs) rot =
     (case apply_op c rot of
        None \<Rightarrow> []
      | Some rot' \<Rightarrow> rot' # run_ops cs rot')"

definition final_rotation :: "rot_op list \<Rightarrow> string list \<Rightarrow> string list" where
  "final_rotation cs rot = last (rot # run_ops cs rot)"

text \<open>
  The loop \<open>for idx, m in enumerate(rotation)\<close> of the single-map case, as the commands
  it sends.
\<close>

fun single_loop :: "string list \<Rightarrow> nat \<Rightarrow> string list \<Rightarrow> rot_op list" where
  "single_loop current idx [] = []"
| "single_loop current idx (m # ms) =
     (if m \<notin> set current then [RotAdd m] else []) @
     (if m \<in> set current \<and> idx \<noteq> 0 then [RotDel m, RotAdd m] else []) @
     single_loop current (idx + 1) ms"

text \<open>
  \<open>set_maprotation\<close>, given the list \<open>current\<close> that \<open>get_map_rotation\<close> returned: the
  commands it sends, in order, and the value it returns. After the loop of the
  single-map case \<open>m\<close> is the last map of \<open>rotation\<close>, and that is the map the source
  removes. \<open>to_remove\<close> is a Python set; \<open>set_order\<close> is the order in which the set is
  enumerated, which the language does not fix.
\<close>

definition set_maprotation ::
  "(string list \<Rightarrow> string list) \<Rightarrow> string list \<Rightarrow> string list \<Rightarrow>
   py_error + (rot_op list \<times> string list)" where
  "set_maprotation set_order current rotation =
     (if rotation = [] then Inl (CommandFailedError ''Empty rotation'')
      else if rotation = current then Inr ([], current)
      else if length current = 1 then
        Inr (single_loop current 0 rotation @
             (if hd current \<notin> set rotation then [RotDel (last rotation)] else []),
             rotation)
      else
        (let first = hd rotation;
             rest = tl rotation;
             to_remove = remdups (filter (\<lambda>m. m \<noteq> first) current)
         in Inr ((if set to_remove = set current then [RotAdd first] else []) @
                 map RotDel (set_order to_remove) @
                 map RotAdd rest,
                 first # rest)))"

text \<open>All the commands succeed, one after the other, and leave the rotation \<open>r\<close>.\<close>

definition runs_to :: "rot_op list \<Rightarrow> string list \<Rightarrow> string list \<Rightarrow> bool" where
  "runs_to cs rot r = (length (run_ops cs rot) = length cs \<and> final_rotation cs rot = r)"

section \<open>The cache\<close>






section \<open>Evaluation\<close>

text \<open>The definitions that evaluate the model on a concrete input, unfolded by \<open>simp\<close>.\<close>

lemmas str_defs = startswith_def contains_def split1_def rsplit1_def split_all_def upper_def
  lower_def upper_char_def lower_char_def is_digit_def is_space_def strip_def remove_char_def
  digit_val_def int_of_digits_def

lemmas rx_defs = re_match_def log_time_regexp_def chat_regexp_def player_info_regexp_def
  kill_split_regexp_def vote_started_regexp_def voted_regexp_def vote_kick_regexp_def
  camera_regexp_def teamswitch_regexp_def kick_regexp_def

lemmas parse_defs = fromtimestamp_def extract_time_def fmt_def parse_connected_def
  parse_kill_head_def parse_chat_def parse_vote_def parse_camera_def parse_teamswitch_def
  parse_kick_def parse_match_start_def parse_match_ended_def dispatch_def
  set_connected_player_def parse_kill_def parse_line_def Let_def

lemmas loop_defs = parse_logs_def make_event_def action_filtered_def player_filtered_def
  emitted_event_def LOG_ACTIONS_def closed_vocabulary_def

section \<open>What a match leaves in the captures\<close>

lemma star_match_Some:
  "star_match cl s k = Some res \<Longrightarrow> \<exists>s'. k s' = Some res"
  by (induction s) (auto split: if_splits option.splits)

lemma rx_match_frame:
  "rx_match r s c k = Some res \<Longrightarrow>
     \<exists>s' c'. k s' c' = Some res \<and> (\<forall>n. n \<notin> grps r \<longrightarrow> c' n = c n)"
proof (induction r arbitrary: s c k)
  case (Lit l)
  then show ?case by (auto split: if_splits)
next
  case (Cls cl)
  then show ?case by (auto split: if_splits list.splits)
next
  case (Star cl)
  then have "star_match cl s (\<lambda>s'. k s' c) = Some res" by simp
  from star_match_Some [OF this] obtain s' where "k s' c = Some res" by blast
  then show ?case by blast
next
  case (Plus cl)
  then obtain x xs where "star_match cl xs (\<lambda>s'. k s' c) = Some res"
    by (auto split: if_splits list.splits)
  from star_match_Some [OF this] obtain s' where "k s' c = Some res" by blast
  then show ?case by blast
next
  case (Grp n r)
  from Grp.prems have "rx_match r s c (\<lambda>s' c'. k s' (c'(n \<mapsto> take (length s - length s') s))) = Some res"
    by simp
  from Grp.IH [OF this] obtain s' c' where
    "k s' (c'(n \<mapsto> take (length s - length s') s)) = Some res" "\<forall>m. m \<notin> grps r \<longrightarrow> c' m = c m"
    by blast
  then have "k s' (c'(n \<mapsto> take (length s - length s') s)) = Some res \<and>
      (\<forall>m. m \<notin> grps (Grp n r) \<longrightarrow> (c'(n \<mapsto> take (length s - length s') s)) m = c m)"
    by simp
  then show ?case by blast
next
  case (Alt a b)
  then show ?case by (fastforce split: option.splits)
next
  case (Seq a b)
  from Seq.prems have "rx_match a s c (\<lambda>s' c'. rx_match b s' c' k) = Some res" by simp
  from Seq.IH(1) [OF this] obtain s1 c1 where
    b: "rx_match b s1 c1 k = Some res" and f1: "\<forall>n. n \<notin> grps a \<longrightarrow> c1 n = c n" by blast
  from Seq.IH(2) [OF b] obtain s2 c2 where
    k: "k s2 c2 = Some res" and f2: "\<forall>n. n \<notin> grps b \<longrightarrow> c2 n = c1 n" by blast
  from f1 f2 have "\<forall>n. n \<notin> grps (Seq a b) \<longrightarrow> c2 n = c n" by simp
  with k show ?case by blast
qed

lemma ensures_frame: "rx_ensures r (\<lambda>c c'. \<forall>n. n \<notin> grps r \<longrightarrow> c' n = c n)"
  unfolding rx_ensures_def by (blast dest: rx_match_frame)

lemma ensures_seq:
  assumes "rx_ensures a R1" and "rx_ensures b R2"
  shows "rx_ensures (Seq a b) (\<lambda>c c''. \<exists>c'. R1 c c' \<and> R2 c' c'')"
  unfolding rx_ensures_def
proof (intro allI impI)
  fix s c and k :: "string \<Rightarrow> caps \<Rightarrow> caps option" and res
  assume "rx_match (Seq a b) s c k = Some res"
  then have "rx_match a s c (\<lambda>s' c'. rx_match b s' c' k) = Some res" by simp
  with assms(1) obtain s1 c1 where b: "rx_match b s1 c1 k = Some res" and r1: "R1 c c1"
    unfolding rx_ensures_def by blast
  from assms(2) b obtain s2 c2 where "k s2 c2 = Some res" "R2 c1 c2"
    unfolding rx_ensures_def by blast
  with r1 show "\<exists>s' c'. k s' c' = Some res \<and> (\<exists>c1. R1 c c1 \<and> R2 c1 c')" by blast
qed

lemma startswith_take:
  assumes "startswith s x"
  shows "take (length s - (length s - length x)) s = x"
proof -
  from assms have t: "take (length x) s = x" by (simp add: startswith_def)
  then have "length (take (length x) s) = length x" by simp
  then have "length x \<le> length s" by simp
  then have "length s - (length s - length x) = length x" by simp
  with t show ?thesis by simp
qed

lemma ensures_choice:
  assumes "n \<noteq> a" "n \<noteq> b"
  shows "rx_ensures (Grp n (Alt (Grp a (Lit x)) (Grp b (Lit y))))
           (\<lambda>c c'. c' n \<in> {Some x, Some y} \<and> (\<forall>m. m \<notin> {n, a, b} \<longrightarrow> c' m = c m))"
  unfolding rx_ensures_def
proof (intro allI impI)
  fix s c and k :: "string \<Rightarrow> caps \<Rightarrow> caps option" and res
  assume m: "rx_match (Grp n (Alt (Grp a (Lit x)) (Grp b (Lit y)))) s c k = Some res"
  let ?R = "\<lambda>c'. c' n \<in> {Some x, Some y} \<and> (\<forall>m. m \<notin> {n, a, b} \<longrightarrow> c' m = c m)"
  from m consider
      (l) "startswith s x" "k (drop (length x) s) (c(a \<mapsto> x, n \<mapsto> x)) = Some res"
    | (r) "startswith s y" "k (drop (length y) s) (c(b \<mapsto> y, n \<mapsto> y)) = Some res"
    by (auto simp: startswith_take split: if_splits option.splits)
  then show "\<exists>s' c'. k s' c' = Some res \<and> ?R c'"
  proof cases
    case l
    have "?R (c(a \<mapsto> x, n \<mapsto> x))" by simp
    with l(2) show ?thesis by blast
  next
    case r
    have "?R (c(b \<mapsto> y, n \<mapsto> y))" by simp
    with r(2) show ?thesis by blast
  qed
qed

lemma ensures_weaken: "rx_ensures r R \<Longrightarrow> (\<And>c c'. R c c' \<Longrightarrow> R' c c') \<Longrightarrow> rx_ensures r R'"
  unfolding rx_ensures_def by blast

lemma ensures_re_match: "rx_ensures r R \<Longrightarrow> re_match r s = Some g \<Longrightarrow> R Map.empty g"
  unfolding rx_ensures_def re_match_def by fastforce

lemma ensures_grp:
  assumes "rx_ensures r R"
  shows "rx_ensures (Grp n r) (\<lambda>c c''. \<exists>c' v. R c c' \<and> c'' = c'(n \<mapsto> v))"
  unfolding rx_ensures_def
proof (intro allI impI)
  fix s c and k :: "string \<Rightarrow> caps \<Rightarrow> caps option" and res
  assume "rx_match (Grp n r) s c k = Some res"
  then have "rx_match r s c (\<lambda>s' c'. k s' (c'(n \<mapsto> take (length s - length s') s))) = Some res"
    by simp
  with assms obtain s' c' where
    "k s' (c'(n \<mapsto> take (length s - length s') s)) = Some res" "R c c'"
    unfolding rx_ensures_def by blast
  then show "\<exists>s' c''. k s' c'' = Some res \<and> (\<exists>c' v. R c c' \<and> c'' = c'(n \<mapsto> v))" by blast
qed

lemma chat_groups:
  assumes "re_match chat_regexp s = Some g"
  shows "g 1 \<in> {Some ''Team'', Some ''Unit''} \<and> g 5 \<in> {Some ''Allies'', Some ''Axis''}"
proof -
  note e = ensures_seq [OF ensures_frame ensures_seq [OF ensures_choice
             ensures_seq [OF ensures_frame ensures_seq [OF ensures_frame
               ensures_seq [OF ensures_frame ensures_seq [OF ensures_choice ensures_frame]]]]]]
  have "rx_ensures chat_regexp
          (\<lambda>c g. g 1 \<in> {Some ''Team'', Some ''Unit''} \<and> g 5 \<in> {Some ''Allies'', Some ''Axis''})"
    unfolding chat_regexp_def seqs.simps
    by (rule ensures_weaken, rule e) auto
  from ensures_re_match [OF this assms] show ?thesis .
qed

lemma kick_groups:
  assumes "re_match kick_regexp s = Some g"
  shows "g 3 \<in> {Some ''KICKED'', Some ''BANNED FOR 2 HOURS''}"
proof -
  note inner = ensures_grp [OF ensures_seq [OF ensures_frame ensures_seq [OF ensures_frame
                 ensures_seq [OF ensures_frame ensures_seq [OF ensures_choice ensures_frame]]]]]
  have "rx_ensures kick_regexp (\<lambda>c g. g 3 \<in> {Some ''KICKED'', Some ''BANNED FOR 2 HOURS''})"
    unfolding kick_regexp_def seqs.simps
    apply (rule ensures_weaken)
     apply (rule ensures_seq [OF ensures_frame ensures_seq [OF ensures_frame ensures_seq [OF ensures_frame
              ensures_seq [OF ensures_frame ensures_seq [OF ensures_frame ensures_seq [OF ensures_frame
                inner]]]]]])
    apply auto
    done
  from ensures_re_match [OF this assms] show ?thesis .
qed

section \<open>The action of a parsed line\<close>

lemma partition_first_decomp:
  "partition_first sep s = Some (b, a) \<Longrightarrow> s = b @ sep @ a"
proof (induction s arbitrary: b)
  case Nil
  then show ?case by (simp split: if_splits)
next
  case (Cons x xs)
  show ?case
  proof (cases "startswith (x # xs) sep")
    case True
    with Cons.prems have "b = []" "a = drop (length sep) (x # xs)" by simp_all
    moreover from True have "take (length sep) (x # xs) = sep" by (simp add: startswith_def)
    ultimately show ?thesis by (metis append_Nil append_take_drop_id)
  next
    case False
    with Cons.prems obtain b' where "partition_first sep xs = Some (b', a)" "b = x # b'"
      by (auto split: option.splits)
    with Cons.IH show ?thesis by simp
  qed
qed

lemma partition_first_keeps_keyword:
  assumes p: "partition_first sep s = Some (b, a)"
    and k: "startswith s k"
    and sep: "sep \<noteq> []" "hd sep \<notin> set k"
  shows "startswith b k"
proof -
  from partition_first_decomp [OF p] have s: "s = b @ sep @ a" .
  from k have t: "take (length k) s = k" by (simp add: startswith_def)
  show ?thesis
  proof (cases "length k \<le> length b")
    case True
    with s t show ?thesis by (simp add: startswith_def)
  next
    case False
    then have "length b < length k" by simp
    with s t have "k = b @ take (length k - length b) (sep @ a)" by simp
    moreover from \<open>length b < length k\<close> sep(1)
    have "hd sep \<in> set (take (length k - length b) (sep @ a))"
      by (cases sep; cases "length k - length b") auto
    ultimately have "hd sep \<in> set k" by (metis Un_iff set_append)
    with sep(2) show ?thesis by simp
  qed
qed

lemma parse_connected_action:
  assumes "parse_connected v0 = Some v"
    and "startswith (l_rest v0) ''DISCONNECTED'' \<or> startswith (l_rest v0) ''CONNECTED''"
    and "l_action v = Some a"
  shows "family_action a"
proof -
  from assms(1,3) obtain c where p: "partition_first '' '' (l_rest v0) = Some (a, c)"
    by (auto simp: parse_connected_def split1_def split: option.splits)
  from assms(2) show ?thesis
  proof
    assume "startswith (l_rest v0) ''DISCONNECTED''"
    from partition_first_keeps_keyword [OF p this] show ?thesis by (simp add: family_action_def)
  next
    assume "startswith (l_rest v0) ''CONNECTED''"
    from partition_first_keeps_keyword [OF p this] show ?thesis by (simp add: family_action_def)
  qed
qed

lemma parse_kill_head_action:
  assumes "parse_kill_head v0 = Some v"
    and "startswith (l_rest v0) ''KILL'' \<or> startswith (l_rest v0) ''TEAM KILL''"
    and "l_action v = Some a"
  shows "family_action a"
proof -
  from assms(1,3) obtain c where p: "partition_first '': '' (l_rest v0) = Some (a, c)"
    by (auto simp: parse_kill_head_def split1_def split: option.splits)
  from assms(2) show ?thesis
  proof
    assume "startswith (l_rest v0) ''KILL''"
    from partition_first_keeps_keyword [OF p this] show ?thesis by (simp add: family_action_def)
  next
    assume "startswith (l_rest v0) ''TEAM KILL''"
    from partition_first_keeps_keyword [OF p this] show ?thesis by (simp add: family_action_def)
  qed
qed

lemma parse_chat_action:
  assumes "parse_chat v0 = Some v" and "l_action v = Some a"
  shows "a \<in> set closed_vocabulary"
proof -
  from assms obtain g where g: "re_match chat_regexp (l_rest v0) = Some g"
    and a: "a = ''CHAT['' @ fmt (g 5) @ '']['' @ fmt (g 1) @ '']''"
    by (auto simp: parse_chat_def Let_def split: option.splits)
  from chat_groups [OF g] a show ?thesis
    by (auto simp: fmt_def closed_vocabulary_def)
qed

lemma parse_vote_action:
  assumes "parse_vote v0 = Some v" and "l_action v = Some a"
  shows "a \<in> set closed_vocabulary"
  using assms
  by (auto simp: parse_vote_def Let_def closed_vocabulary_def split: if_splits option.splits)

lemma parse_camera_action:
  assumes "parse_camera v0 = Some v" and "l_action v = Some a"
  shows "a \<in> set closed_vocabulary"
  using assms
  by (auto simp: parse_camera_def Let_def closed_vocabulary_def split: if_splits option.splits)

lemma parse_teamswitch_action:
  assumes "parse_teamswitch v0 = Some v" and "l_action v = Some a"
  shows "a \<in> set closed_vocabulary"
  using assms
  by (auto simp: parse_teamswitch_def Let_def closed_vocabulary_def split: if_splits option.splits)

lemma parse_kick_action:
  assumes "parse_kick v0 = Some v" and "l_action v0 = None" and "l_action v = Some a"
  shows "a \<in> set closed_vocabulary"
proof (cases "re_match kick_regexp (l_rest v0)")
  case None
  with assms show ?thesis by (simp add: parse_kick_def)
next
  case (Some g)
  with assms have "a = ''TK '' @ fmt (g 3)" by (auto simp: parse_kick_def)
  with kick_groups [OF Some] show ?thesis by (auto simp: fmt_def closed_vocabulary_def)
qed

lemma parse_match_start_action:
  assumes "parse_match_start v0 = Some v" and "l_action v = Some a"
  shows "a \<in> set closed_vocabulary"
  using assms
  by (auto simp: parse_match_start_def closed_vocabulary_def split: option.splits)

lemma parse_match_ended_action:
  assumes "parse_match_ended v0 = Some v" and "l_action v = Some a"
  shows "a \<in> set closed_vocabulary"
  using assms
  by (auto simp: parse_match_ended_def closed_vocabulary_def split: option.splits)

lemma dispatch_action:
  assumes "dispatch v0 = Some v" and "l_action v0 = None" and "l_action v = Some a"
  shows "a \<in> set closed_vocabulary \<or> family_action a"
  using assms
  unfolding dispatch_def Let_def
  by (auto split: if_splits
        dest: parse_connected_action parse_kill_head_action parse_chat_action parse_vote_action
          parse_camera_action parse_teamswitch_action parse_kick_action parse_match_start_action
          parse_match_ended_action)

lemma dispatch_keeps:
  assumes "dispatch v0 = Some v"
  shows "l_time v = l_time v0 \<and> l_rest v = l_rest v0"
  using assms
  unfolding dispatch_def Let_def parse_connected_def parse_kill_head_def parse_chat_def
    parse_vote_def parse_camera_def parse_teamswitch_def parse_kick_def parse_match_start_def
    parse_match_ended_def
  by (auto split: if_splits option.splits)

lemma set_connected_player_keeps:
  "l_time (set_connected_player v) = l_time v \<and> l_rest (set_connected_player v) = l_rest v
   \<and> l_action (set_connected_player v) = l_action v"
  by (simp add: set_connected_player_def)

lemma parse_kill_keeps:
  assumes "parse_kill v = Some w"
  shows "l_time w = l_time v \<and> l_rest w = l_rest v \<and> l_action w = l_action v"
  using assms unfolding parse_kill_def
  by (auto split: if_splits option.splits)

lemma parse_line_Some:
  assumes "parse_line line = Some v"
  shows "\<exists>tf rest. unpack2 (split1 ''] '' line) = Some (tf, rest)
           \<and> extract_time (drop 1 tf) = Some (l_time v) \<and> l_rest v = rest
           \<and> (\<forall>a. l_action v = Some a \<longrightarrow> a \<in> set closed_vocabulary \<or> family_action a)"
proof -
  from assms obtain tf rest t v1 where
    u: "unpack2 (split1 ''] '' line) = Some (tf, rest)" and
    t: "extract_time (drop 1 tf) = Some t" and
    d: "dispatch \<lparr>l_time = t, l_rest = rest, l_action = None, l_content = rest,
                  l_sub_content = None, l_player = None, l_player2 = None,
                  l_weapon = None, l_steam_id_64_1 = None, l_steam_id_64_2 = None\<rparr> = Some v1" and
    k: "parse_kill (set_connected_player v1) = Some v"
    unfolding parse_line_def by (auto split: option.splits)
  from dispatch_keeps [OF d] have k1: "l_time v1 = t" "l_rest v1 = rest" by simp_all
  from parse_kill_keeps [OF k] set_connected_player_keeps [of v1] k1
  have k2: "l_time v = t" "l_rest v = rest" "l_action v = l_action v1" by simp_all
  have "a \<in> set closed_vocabulary \<or> family_action a" if "l_action v = Some a" for a
    using dispatch_action [OF d, of a] that k2 by simp
  with u t k2 show ?thesis by blast
qed

lemma parse_loop_res:
  assumes "parse_loop now fa fp ls res acts plrs = Inr (res', acts', plrs')"
  shows "res' = res @ List.map_filter (emitted_event now fa fp) ls"
  using assms
proof (induction ls arbitrary: res acts plrs)
  case Nil
  then show ?case by (simp add: map_filter_simps)
next
  case (Cons line ls)
  show ?case
  proof (cases "emitted_event now fa fp line")
    case None
    with Cons.prems obtain acts1 plrs1 where
      "parse_loop now fa fp ls res acts1 plrs1 = Inr (res', acts', plrs')"
      by (auto simp: emitted_event_def Let_def split: if_splits option.splits sum.splits bool.splits)
    from Cons.IH [OF this] None show ?thesis by (simp add: map_filter_simps)
  next
    case (Some e)
    with Cons.prems obtain acts1 plrs1 where
      "parse_loop now fa fp ls (res @ [e]) acts1 plrs1 = Inr (res', acts', plrs')"
      by (auto simp: emitted_event_def Let_def split: if_splits option.splits sum.splits bool.splits)
    from Cons.IH [OF this] Some show ?thesis by (simp add: map_filter_simps)
  qed
qed

lemma parse_loop_sets:
  assumes "parse_loop now fa fp ls res acts plrs = Inr (r1, a1, p1)"
    and "parse_loop now' fa' fp' ls res' acts plrs = Inr (r2, a2, p2)"
  shows "a1 = a2 \<and> p1 = p2"
  using assms
proof (induction ls arbitrary: res res' acts plrs)
  case Nil
  then show ?case by simp
next
  case (Cons line ls)
  show ?case
  proof (cases "line = [] \<or> parse_line line = None")
    case True
    with Cons.prems have
      "parse_loop now fa fp ls res acts plrs = Inr (r1, a1, p1)"
      "parse_loop now' fa' fp' ls res' acts plrs = Inr (r2, a2, p2)"
      by (auto split: if_splits)
    then show ?thesis by (rule Cons.IH)
  next
    case False
    then obtain v where v: "line \<noteq> []" "parse_line line = Some v" by auto
    let ?p = "List.insert (l_player2 v) (List.insert (l_player v) plrs)"
    let ?a = "List.insert (l_action v) acts"
    from Cons.prems(1) v obtain q1 where
      "parse_loop now fa fp ls q1 ?a ?p = Inr (r1, a1, p1)"
      by (auto simp: Let_def split: if_splits sum.splits bool.splits)
    moreover from Cons.prems(2) v obtain q2 where
      "parse_loop now' fa' fp' ls q2 ?a ?p = Inr (r2, a2, p2)"
      by (auto simp: Let_def split: if_splits sum.splits bool.splits)
    ultimately show ?thesis by (rule Cons.IH)
  qed
qed

lemma without_relative_time_make_event:
  "without_relative_time (make_event now1 line v) = without_relative_time (make_event now2 line v)"
  by (simp add: without_relative_time_def make_event_def)

lemma parse_loop_clock:
  assumes "map without_relative_time res1 = map without_relative_time res2"
  shows "map_sum id (\<lambda>(r, a, p). (map without_relative_time r, a, p))
           (parse_loop now1 fa fp ls res1 acts plrs) =
         map_sum id (\<lambda>(r, a, p). (map without_relative_time r, a, p))
           (parse_loop now2 fa fp ls res2 acts plrs)"
  using assms
proof (induction ls arbitrary: res1 res2 acts plrs)
  case Nil
  then show ?case by simp
next
  case (Cons line ls)
  have step: "map without_relative_time (res1 @ [make_event now1 line v]) =
              map without_relative_time (res2 @ [make_event now2 line v])" for v
    using Cons.prems without_relative_time_make_event [of now1 line v now2] by simp
  show ?case
    using Cons.IH [OF Cons.prems] Cons.IH [OF step]
    by (simp add: Let_def split: option.splits sum.splits bool.splits)
qed

lemma emitted_event_Some:
  assumes "emitted_event now fa fp line = Some e"
  shows "\<exists>v. parse_line line = Some v \<and> e = make_event now line v"
  using assms
  by (auto simp: emitted_event_def split: if_splits option.splits sum.splits bool.splits)

lemma emitted_event_raw: "emitted_event now fa fp line = Some e \<Longrightarrow> raw e = line"
  by (auto dest!: emitted_event_Some simp: make_event_def)

lemma parse_logs_Inr:
  assumes "parse_logs now raw_text fa fp = Inr b"
  shows "logs b = rev (List.map_filter (emitted_event now fa fp) (split_all [CHR 0x0A] raw_text))"
proof -
  from assms obtain res acts plrs where
    l: "parse_loop now fa fp (split_all [CHR 0x0A] raw_text) [] [] [] = Inr (res, acts, plrs)"
    and b: "logs b = rev res"
    by (auto simp: parse_logs_def split: sum.splits)
  from parse_loop_res [OF l] b show ?thesis by simp
qed

lemma family_action_nonempty: "family_action a \<Longrightarrow> a \<noteq> []"
  by (auto simp: family_action_def startswith_def)

lemma closed_vocabulary_nonempty: "a \<in> set closed_vocabulary \<Longrightarrow> a \<noteq> []"
  by (auto simp: closed_vocabulary_def)

lemma parse_logs_unfiltered_returns:
  "\<exists>b0. parse_logs now raw_text None None = Inr b0"
proof -
  have "\<exists>r. parse_loop now None None ls res acts plrs = Inr r" for ls res acts plrs
    by (induction ls arbitrary: res acts plrs)
       (auto simp: Let_def action_filtered_def player_filtered_def split: option.splits)
  then obtain r where "parse_loop now None None (split_all [CHR 0x0A] raw_text) [] [] [] = Inr r"
    by blast
  then show ?thesis by (cases r) (simp add: parse_logs_def)
qed

section \<open>The events of a batch\<close>

text \<open>
  What holds of every record that \<open>parse_logs\<close> returns: it is the record of a line of
  the input that the body of the \<open>try\<close> ran through to its end, its timestamp is the one
  decoded from the line's time field, and its action, when it has one, is a non-empty
  text that belongs to the closed vocabulary or starts with the keyword of the connection
  or kill branch.
\<close>

lemma parse_logs_emitted_from_lines:
  assumes "parse_logs now raw_text fa fp = Inr b" and "e \<in> set (logs b)"
  shows "raw e \<in> set (split_all [CHR 0x0A] raw_text)
       \<and> (\<exists>v tf rest. parse_line (raw e) = Some v \<and> e = make_event now (raw e) v
             \<and> unpack2 (split1 ''] '' (raw e)) = Some (tf, rest)
             \<and> extract_time (drop 1 tf) = Some (l_time v)
             \<and> timestamp_ms e = int (l_time v) * 1000)
       \<and> (\<forall>a. action e = Some a \<longrightarrow>
             a \<noteq> [] \<and> (a \<in> set closed_vocabulary \<or> family_action a))"
proof -
  from parse_logs_Inr [OF assms(1)] assms(2)
  have "e \<in> set (List.map_filter (emitted_event now fa fp) (split_all [CHR 0x0A] raw_text))"
    by simp
  then obtain line where
    line: "line \<in> set (split_all [CHR 0x0A] raw_text)" and
    em: "emitted_event now fa fp line = Some e"
    by (auto simp: map_filter_def)
  from emitted_event_Some [OF em] obtain v where
    v: "parse_line line = Some v" and e: "e = make_event now line v" by blast
  from e have r: "raw e = line" by (simp add: make_event_def)
  from parse_line_Some [OF v] obtain tf rest where
    u: "unpack2 (split1 ''] '' line) = Some (tf, rest)" and
    t: "extract_time (drop 1 tf) = Some (l_time v)" and
    a: "\<forall>a. l_action v = Some a \<longrightarrow> a \<in> set closed_vocabulary \<or> family_action a"
    by blast
  from e have ts: "timestamp_ms e = int (l_time v) * 1000" and ac: "action e = l_action v"
    by (simp_all add: make_event_def)
  have 1: "raw e \<in> set (split_all [CHR 0x0A] raw_text)" using r line by simp
  have 2: "\<exists>v tf rest. parse_line (raw e) = Some v \<and> e = make_event now (raw e) v
             \<and> unpack2 (split1 ''] '' (raw e)) = Some (tf, rest)
             \<and> extract_time (drop 1 tf) = Some (l_time v)
             \<and> timestamp_ms e = int (l_time v) * 1000"
    using r v e u t ts by blast
  have 3: "\<forall>a. action e = Some a \<longrightarrow>
             a \<noteq> [] \<and> (a \<in> set closed_vocabulary \<or> family_action a)"
    using a ac family_action_nonempty closed_vocabulary_nonempty by auto
  from 1 2 3 show ?thesis by blast
qed

text \<open>
  C1. Two lines whose branch does not extract its fields. The first takes the branch of a
  kick for team killing; its pattern does not match (the line lacks the exclamation
  mark), the \<open>else\<close> logs \<open>Unable to parse line\<close> and, having no \<open>continue\<close>, lets the
  line through: it is emitted, and its action is \<open>None\<close>. The second takes the camera
  branch; its pattern does not match either (no identifier in brackets), the same \<open>else\<close>
  lets it through and it is emitted without player or identifier. \<open>None\<close> is also among
  the actions and the players returned.
\<close>

theorem parse_logs_emits_unparsed_lines:
  "parse_logs 0
     (''[1:00 min (1606998500)] KICK: [ann] has been kicked. [BANNED FOR 2 HOURS FOR TEAM KILLING]''
      @ [CHR 0x0A] @ ''[2:00 min (1606998560)] PLAYER [ann] Entered Admin Camera'') None None =
     Inr \<lparr>actions = [Some ''CAMERA'', None] @ map Some LOG_ACTIONS,
          players = [None],
          logs =
           [\<lparr>version = 1, timestamp_ms = 1606998560000, relative_time_ms = 1606998560000,
             raw = ''[2:00 min (1606998560)] PLAYER [ann] Entered Admin Camera'',
             line_without_time = ''PLAYER [ann] Entered Admin Camera'',
             action = Some ''CAMERA'', player = None, steam_id_64_1 = None, player2 = None,
             steam_id_64_2 = None, weapon = None,
             message = ''[ann] Entered Admin Camera'', sub_content = None\<rparr>,
            \<lparr>version = 1, timestamp_ms = 1606998500000, relative_time_ms = 1606998500000,
             raw = ''[1:00 min (1606998500)] KICK: [ann] has been kicked. [BANNED FOR 2 HOURS FOR TEAM KILLING]'',
             line_without_time = ''KICK: [ann] has been kicked. [BANNED FOR 2 HOURS FOR TEAM KILLING]'',
             action = None, player = None, steam_id_64_1 = None, player2 = None,
             steam_id_64_2 = None, weapon = None,
             message = ''KICK: [ann] has been kicked. [BANNED FOR 2 HOURS FOR TEAM KILLING]'',
             sub_content = None\<rparr>]\<rparr>"
  by (simp add: loop_defs parse_defs rx_defs str_defs)

section \<open>The order of the events\<close>

text \<open>
  C8. Whenever \<open>parse_logs\<close> returns, the events it returns are the events of the input
  lines in reverse order: the list of events is the reverse of what the lines emit, line
  by line, and the raw lines of the events are the emitted lines of the input, last line
  first. So of two emitted lines the later one of the input comes first in the output.
\<close>

theorem parse_logs_reverses_input_order:
  assumes "parse_logs now raw_text fa fp = Inr b"
  shows "logs b = rev (List.map_filter (emitted_event now fa fp) (split_all [CHR 0x0A] raw_text))
       \<and> map raw (logs b) =
           rev (filter (\<lambda>line. emitted_event now fa fp line \<noteq> None)
                  (split_all [CHR 0x0A] raw_text))"
proof -
  have m: "map raw (List.map_filter (emitted_event now fa fp) ls) =
           filter (\<lambda>line. emitted_event now fa fp line \<noteq> None) ls" for ls
    by (induction ls) (auto simp: map_filter_simps emitted_event_raw split: option.splits)
  let ?ls = "split_all [CHR 0x0A] raw_text"
  from parse_logs_Inr [OF assms]
  have l: "logs b = rev (List.map_filter (emitted_event now fa fp) ?ls)" .
  then have "map raw (logs b) = rev (map raw (List.map_filter (emitted_event now fa fp) ?ls))"
    by (simp only: rev_map)
  also have "\<dots> = rev (filter (\<lambda>line. emitted_event now fa fp line \<noteq> None) ?ls)"
    by (simp only: m)
  finally show ?thesis using l by blast
qed

theorem parse_logs_reverses_input_order_witness:
  "filter (\<lambda>line. emitted_event 0 None None line \<noteq> None)
     (split_all [CHR 0x0A]
        (''[1 (10)] CONNECTED ann'' @ [CHR 0x0A] @ ''junk'' @ [CHR 0x0A] @
         ''[2 (20)] DISCONNECTED bob'')) =
     [''[1 (10)] CONNECTED ann'', ''[2 (20)] DISCONNECTED bob'']
   \<and> map_sum id (\<lambda>b. map raw (logs b))
        (parse_logs 0
           (''[1 (10)] CONNECTED ann'' @ [CHR 0x0A] @ ''junk'' @ [CHR 0x0A] @
            ''[2 (20)] DISCONNECTED bob'') None None) =
     Inr [''[2 (20)] DISCONNECTED bob'', ''[1 (10)] CONNECTED ann'']"
proof -
  let ?blob = "''[1 (10)] CONNECTED ann'' @ [CHR 0x0A] @ ''junk'' @ [CHR 0x0A] @
               ''[2 (20)] DISCONNECTED bob''"
  obtain b where h: "parse_logs 0 ?blob None None = Inr b"
    using parse_logs_unfiltered_returns by blast
  have f: "filter (\<lambda>line. emitted_event 0 None None line \<noteq> None) (split_all [CHR 0x0A] ?blob) =
     [''[1 (10)] CONNECTED ann'', ''[2 (20)] DISCONNECTED bob'']"
    by (simp add: loop_defs parse_defs rx_defs str_defs)
  from parse_logs_reverses_input_order [OF h]
  have "map raw (logs b) =
        rev (filter (\<lambda>line. emitted_event 0 None None line \<noteq> None) (split_all [CHR 0x0A] ?blob))"
    by (rule conjunct2)
  then have "map raw (logs b) = rev [''[1 (10)] CONNECTED ann'', ''[2 (20)] DISCONNECTED bob'']"
    by (simp only: f)
  then have "map raw (logs b) = [''[2 (20)] DISCONNECTED bob'', ''[1 (10)] CONNECTED ann'']"
    by simp
  with h f show ?thesis by simp
qed

section \<open>The clock\<close>

text \<open>
  C9, as amended. \<open>parse_logs\<close> reads the clock, and \<open>relative_time_ms\<close> is the distance of
  the event from that reading; so two calls on the same text and filters give the same
  outcome (the same exception, or the same actions, players and events) in every field but
  \<open>relative_time_ms\<close>, and the same outcome altogether when the clock reads the same.
\<close>

theorem parse_logs_same_up_to_clock:
  "map_sum id batch_without_relative_time (parse_logs now1 raw_text fa fp) =
   map_sum id batch_without_relative_time (parse_logs now2 raw_text fa fp)"
proof -
  have "map without_relative_time [] = map without_relative_time []" by simp
  from parse_loop_clock [OF this, of now1 fa fp "split_all [CHR 0x0A] raw_text" "[]" "[]" now2]
  show ?thesis
    by (auto simp: parse_logs_def batch_without_relative_time_def rev_map [symmetric]
             split: sum.splits)
qed

text \<open>
  As stated the claim fails: one second later the same line parses to another
  \<open>relative_time_ms\<close>.
\<close>

theorem parse_logs_same_up_to_clock_counterexample:
  "map_sum id (\<lambda>b. map relative_time_ms (logs b))
     (parse_logs 0 ''[1 (1)] CONNECTED bob'' None None) = Inr [1000]
   \<and> map_sum id (\<lambda>b. map relative_time_ms (logs b))
       (parse_logs 1000000 ''[1 (1)] CONNECTED bob'' None None) = Inr [0]
   \<and> parse_logs 0 ''[1 (1)] CONNECTED bob'' None None \<noteq>
       parse_logs 1000000 ''[1 (1)] CONNECTED bob'' None None"
  by (simp add: loop_defs parse_defs rx_defs str_defs)

section \<open>The actions of a batch\<close>

lemma parse_logs_actions_cover_LOG_ACTIONS:
  "parse_logs now raw_text fa fp = Inr b \<Longrightarrow> set (map Some LOG_ACTIONS) \<subseteq> set (actions b)"
  by (auto simp: parse_logs_def split: sum.splits)

text \<open>
  C6. On a text without events the actions of the batch are \<open>LOG_ACTIONS\<close> and nothing
  else; \<open>CAMERA\<close> and \<open>TEAM KILL\<close>, two actions of the vocabulary that the parser itself
  assigns, are not among them.
\<close>

theorem parse_logs_actions_lack_camera:
  "parse_logs now [] None None =
     Inr \<lparr>actions = map Some LOG_ACTIONS, players = [], logs = []\<rparr>
   \<and> ''CAMERA'' \<in> set closed_vocabulary \<and> Some ''CAMERA'' \<notin> set (map Some LOG_ACTIONS)
   \<and> ''TEAM KILL'' \<in> set closed_vocabulary \<and> Some ''TEAM KILL'' \<notin> set (map Some LOG_ACTIONS)"
  by (simp add: loop_defs parse_defs rx_defs str_defs)

section \<open>The filters\<close>

lemma parse_logs_filters_keep_sets:
  assumes "parse_logs now raw_text fa fp = Inr b"
    and "parse_logs now raw_text None None = Inr b0"
  shows "actions b = actions b0 \<and> players b = players b0"
proof -
  from assms obtain r a p r0 a0 p0 where
    "parse_loop now fa fp (split_all [CHR 0x0A] raw_text) [] [] [] = Inr (r, a, p)"
    "parse_loop now None None (split_all [CHR 0x0A] raw_text) [] [] [] = Inr (r0, a0, p0)"
    and b: "actions b = a @ map Some LOG_ACTIONS" "players b = p"
      "actions b0 = a0 @ map Some LOG_ACTIONS" "players b0 = p0"
    by (auto simp: parse_logs_def split: sum.splits)
  from parse_loop_sets [OF this(1,2)] b show ?thesis by simp
qed

text \<open>
  C7. A kick line that names team killing and does not match the pattern of the branch
  (here a kick whose reason an administrator wrote) leaves \<open>action\<close> at \<open>None\<close>. Without a filter the line is emitted with that action; with
  an action filter the test \<open>action.startswith\<close> raises, outside the \<open>try\<close>, and the call
  returns no sets at all.
\<close>

theorem parse_logs_filter_raises:
  "parse_logs 0 ''[1:00 min (1606998428)] KICK: [bob] has been kicked. [Kicked by an admin FOR TEAM KILLING]'' None None =
     Inr \<lparr>actions = [None] @ map Some LOG_ACTIONS,
          players = [None],
          logs =
           [\<lparr>version = 1, timestamp_ms = 1606998428000, relative_time_ms = 1606998428000,
            raw = ''[1:00 min (1606998428)] KICK: [bob] has been kicked. [Kicked by an admin FOR TEAM KILLING]'',
            line_without_time = ''KICK: [bob] has been kicked. [Kicked by an admin FOR TEAM KILLING]'',
            action = None, player = None, steam_id_64_1 = None, player2 = None,
            steam_id_64_2 = None, weapon = None,
            message = ''KICK: [bob] has been kicked. [Kicked by an admin FOR TEAM KILLING]'', sub_content = None\<rparr>]\<rparr>
   \<and> parse_logs 0 ''[1:00 min (1606998428)] KICK: [bob] has been kicked. [Kicked by an admin FOR TEAM KILLING]'' (Some ''KILL'') None = Inl AttributeError"
  by (simp add: loop_defs parse_defs rx_defs str_defs)

section \<open>The rotation converges\<close>

lemma runs_to_Nil: "runs_to [] rot rot"
  by (simp add: runs_to_def final_rotation_def)

lemma runs_to_Cons:
  assumes "apply_op c rot = Some r1" and "runs_to cs r1 r2"
  shows "runs_to (c # cs) rot r2"
  using assms by (simp add: runs_to_def final_rotation_def)

lemma runs_to_append:
  assumes "runs_to as rot r1" and "runs_to bs r1 r2"
  shows "runs_to (as @ bs) rot r2"
  using assms
proof (induction as arbitrary: rot)
  case Nil
  then show ?case by (simp add: runs_to_def final_rotation_def)
next
  case (Cons c as)
  from Cons.prems(1) obtain r0 where c: "apply_op c rot = Some r0" and r: "runs_to as r0 r1"
    by (auto simp: runs_to_def final_rotation_def split: option.splits)
  from Cons.IH [OF r Cons.prems(2)] c show ?case
    by (simp add: runs_to_Cons)
qed

lemma runs_to_adds: "runs_to (map RotAdd ys) rot (rot @ ys)"
proof (induction ys arbitrary: rot)
  case Nil
  then show ?case by (simp add: runs_to_Nil)
next
  case (Cons y ys)
  have "apply_op (RotAdd y) rot = Some (rot @ [y])" by simp
  from runs_to_Cons [OF this Cons.IH [of "rot @ [y]"]] show ?case by simp
qed

lemma remove1_distinct: "distinct rot \<Longrightarrow> remove1 x rot = filter (\<lambda>m. m \<noteq> x) rot"
proof (induction rot)
  case Nil
  then show ?case by simp
next
  case (Cons a rot)
  show ?case
  proof (cases "a = x")
    case True
    with Cons.prems have "x \<notin> set rot" by simp
    then have "filter (\<lambda>m. m \<noteq> x) rot = rot" by (auto simp: filter_id_conv)
    with True show ?thesis by simp
  next
    case False
    with Cons show ?thesis by simp
  qed
qed

lemma runs_to_dels:
  assumes "distinct rot" and "distinct xs" and "set xs \<subseteq> set rot"
  shows "runs_to (map RotDel xs) rot (filter (\<lambda>m. m \<notin> set xs) rot)"
  using assms
proof (induction xs arbitrary: rot)
  case Nil
  then show ?case by (simp add: runs_to_Nil)
next
  case (Cons x xs)
  let ?r = "remove1 x rot"
  from Cons.prems have a: "apply_op (RotDel x) rot = Some ?r" by simp
  from Cons.prems have d: "distinct ?r" "distinct xs" "set xs \<subseteq> set ?r" by auto
  from Cons.IH [OF d] have "runs_to (map RotDel xs) ?r (filter (\<lambda>m. m \<notin> set xs) ?r)" .
  moreover have "filter (\<lambda>m. m \<notin> set xs) ?r = filter (\<lambda>m. m \<notin> set (x # xs)) rot"
    using Cons.prems(1) by (simp add: remove1_distinct conj_commute)
  ultimately show ?case using a by (simp add: runs_to_Cons)
qed

lemma single_loop_adds:
  assumes "c \<notin> set ms"
  shows "runs_to (single_loop [c] idx ms) rot (rot @ ms)"
  using assms
proof (induction ms arbitrary: rot idx)
  case Nil
  then show ?case by (simp add: runs_to_Nil)
next
  case (Cons m ms)
  then have m: "m \<noteq> c" and ms: "c \<notin> set ms" by auto
  have "apply_op (RotAdd m) rot = Some (rot @ [m])" by simp
  from runs_to_Cons [OF this Cons.IH [OF ms, of "idx + 1" "rot @ [m]"]] m
  show ?case by simp
qed

lemma single_loop_moves:
  assumes "c \<notin> set pre" and "count_list ms c = 1" and "idx \<noteq> 0"
  shows "runs_to (single_loop [c] idx ms) (c # pre) (pre @ ms)"
  using assms
proof (induction ms arbitrary: pre idx)
  case Nil
  then show ?case by simp
next
  case (Cons m ms)
  show ?case
  proof (cases "m = c")
    case True
    with Cons.prems(2) have ms: "c \<notin> set ms" by (simp add: count_list_0_iff)
    have 1: "apply_op (RotDel c) (c # pre) = Some pre" by simp
    have 2: "apply_op (RotAdd c) pre = Some (pre @ [c])" by simp
    from single_loop_adds [OF ms, of "idx + 1" "pre @ [c]"]
    have "runs_to (single_loop [c] (idx + 1) ms) (pre @ [c]) (pre @ c # ms)" by simp
    from runs_to_Cons [OF 1 runs_to_Cons [OF 2 this]] True Cons.prems(3)
    show ?thesis by simp
  next
    case False
    with Cons.prems have p: "c \<notin> set (pre @ [m])" "count_list ms c = 1" "idx + 1 \<noteq> 0"
      by auto
    have "apply_op (RotAdd m) (c # pre) = Some (c # pre @ [m])" by simp
    from runs_to_Cons [OF this Cons.IH [OF p]] False
    show ?thesis by simp
  qed
qed

lemma single_case_converges:
  assumes "count_list rotation c = 1"
  shows "runs_to (single_loop [c] 0 rotation @
                  (if hd [c] \<notin> set rotation then [RotDel (last rotation)] else []))
                 [c] rotation"
proof -
  from assms have c: "c \<in> set rotation"
    by (metis count_list_0_iff zero_neq_one)
  then obtain d ds where r: "rotation = d # ds" by (cases rotation) auto
  have "runs_to (single_loop [c] 0 rotation) [c] rotation"
  proof (cases "d = c")
    case True
    with assms r have "c \<notin> set ds" by (simp add: count_list_0_iff)
    from single_loop_adds [OF this, of 1 "[c]"] True r show ?thesis by simp
  next
    case False
    with assms r have p: "c \<notin> set [d]" "count_list ds c = 1" "(1::nat) \<noteq> 0" by auto
    have "apply_op (RotAdd d) [c] = Some [c, d]" by simp
    from runs_to_Cons [OF this] single_loop_moves [OF p] False r show ?thesis by simp
  qed
  with c show ?thesis by simp
qed

lemma general_case_converges:
  assumes d: "distinct current"
    and o: "\<forall>xs. distinct xs \<longrightarrow> distinct (set_order xs) \<and> set (set_order xs) = set xs"
  shows "runs_to
           ((if set (remdups (filter (\<lambda>m. m \<noteq> first) current)) = set current
             then [RotAdd first] else []) @
            map RotDel (set_order (remdups (filter (\<lambda>m. m \<noteq> first) current))) @
            map RotAdd rest)
           current (first # rest)"
proof -
  let ?tr = "remdups (filter (\<lambda>m. m \<noteq> first) current)"
  have tr: "distinct ?tr" "set ?tr = set current - {first}" by auto
  with o have so: "distinct (set_order ?tr)" "set (set_order ?tr) = set current - {first}"
    by auto
  have adds: "runs_to (map RotAdd rest) [first] (first # rest)"
    using runs_to_adds [of rest "[first]"] by simp
  show ?thesis
  proof (cases "first \<in> set current")
    case True
    then have c: "set ?tr \<noteq> set current" by auto
    from d True have f: "filter (\<lambda>m. m \<notin> set (set_order ?tr)) current = [first]"
      unfolding so(2)
    proof (induction current)
      case Nil
      then show ?case by simp
    next
      case (Cons a current)
      show ?case
      proof (cases "a = first")
        case True
        with Cons.prems have "first \<notin> set current" by simp
        then have "filter (\<lambda>m. m \<notin> set (a # current) - {first}) current = []"
          by (auto simp: filter_empty_conv)
        with True show ?thesis by simp
      next
        case False
        with Cons.prems have "first \<in> set current" "distinct current" by auto
        from Cons.IH [OF this(2,1)] False Cons.prems(1)
        have "filter (\<lambda>m. m \<notin> set (a # current) - {first}) current = [first]"
          by (auto intro: filter_cong elim!: back_subst [where P = "\<lambda>x. x = [first]"])
        with False show ?thesis by simp
      qed
    qed
    have "runs_to (map RotDel (set_order ?tr)) current [first]"
      using runs_to_dels [OF d so(1)] so(2) f by auto
    from runs_to_append [OF this adds] c show ?thesis by simp
  next
    case False
    then have c: "set ?tr = set current" by auto
    have a: "apply_op (RotAdd first) current = Some (current @ [first])" by simp
    from d False have d': "distinct (current @ [first])" by simp
    have s: "set (set_order ?tr) \<subseteq> set (current @ [first])" using so(2) by auto
    have "filter (\<lambda>m. m \<notin> set (set_order ?tr)) (current @ [first]) = [first]"
      using False so(2) by (auto simp: filter_empty_conv)
    with runs_to_dels [OF d' so(1) s]
    have "runs_to (map RotDel (set_order ?tr)) (current @ [first]) [first]" by simp
    from runs_to_Cons [OF a runs_to_append [OF this adds]] c show ?thesis by simp
  qed
qed

text \<open>
  Where \<open>set_maprotation\<close> does reconcile. Let the desired rotation be non-empty, let the
  current rotation hold no map twice and, when it is a single map, let the desired
  rotation hold that map exactly once. Then every command sent succeeds, and sent in order
  to the current rotation the commands leave exactly the desired rotation, which is also
  the value returned. When the desired rotation is the current one no command is sent.
  (\<open>set_order\<close> enumerates a set: each element once.)
\<close>

lemma set_maprotation_reconciles:
  assumes "rotation \<noteq> []"
    and "\<forall>xs. distinct xs \<longrightarrow> distinct (set_order xs) \<and> set (set_order xs) = set xs"
    and "rotation = current \<or>
         (distinct current \<and> (length current = 1 \<longrightarrow> count_list rotation (hd current) = 1))"
  shows "\<exists>cs. set_maprotation set_order current rotation = Inr (cs, rotation)
            \<and> length (run_ops cs current) = length cs
            \<and> final_rotation cs current = rotation
            \<and> (rotation = current \<longrightarrow> cs = [])"
proof (cases "rotation = current")
  case True
  with assms(1) show ?thesis
    by (simp add: set_maprotation_def final_rotation_def)
next
  case False
  with assms(3) have d: "distinct current"
    and one: "length current = 1 \<longrightarrow> count_list rotation (hd current) = 1" by auto
  from assms(1) obtain first rest where r: "rotation = first # rest" by (cases rotation) auto
  show ?thesis
  proof (cases "length current = 1")
    case True
    then obtain c where c: "current = [c]" by (cases current) auto
    with one have "count_list rotation c = 1" by simp
    from single_case_converges [OF this] c False assms(1) show ?thesis
      by (simp add: set_maprotation_def runs_to_def)
  next
    case len: False
    from general_case_converges [OF d assms(2), of first rest] r False len show ?thesis
      by (simp add: set_maprotation_def runs_to_def Let_def)
  qed
qed

text \<open>
  C2. The current rotation is the single map \<open>A\<close> and the desired rotation is the single
  map \<open>B\<close>. The loop of the single-map case adds \<open>B\<close>; then, \<open>A\<close> not being wanted, the
  source removes \<open>m\<close>, the loop variable, which is \<open>B\<close>, where \<open>current[0]\<close>, which is
  \<open>A\<close>, is the map to remove. The two commands sent are: add \<open>B\<close>, remove \<open>B\<close>; the
  server goes from \<open>A\<close> to \<open>A, B\<close> and back to \<open>A\<close>; and the call returns \<open>B\<close> as the
  rotation it has set.
\<close>

theorem set_maprotation_removes_loop_variable:
  "set_maprotation (\<lambda>xs. xs) [''A''] [''B''] = Inr ([RotAdd ''B'', RotDel ''B''], [''B''])
   \<and> run_ops [RotAdd ''B'', RotDel ''B''] [''A''] = [[''A'', ''B''], [''A'']]
   \<and> final_rotation [RotAdd ''B'', RotDel ''B''] [''A''] = [''A'']"
  by (simp add: set_maprotation_def final_rotation_def)

section \<open>The rotation is never empty\<close>

lemma length_remove1_ge:
  assumes "length rot \<ge> 2"
  shows "remove1 x rot \<noteq> []"
proof -
  have "length (remove1 x rot) \<ge> 1"
    using assms by (auto simp: length_remove1)
  then show ?thesis by auto
qed

lemma nonempty_from_two:
  assumes "length rot \<ge> 2" and "length tail \<le> 1"
  shows "\<forall>s\<in>set (run_ops (single_loop [c] idx ms @ tail) rot). s \<noteq> []"
  using assms
proof (induction ms arbitrary: rot idx)
  case Nil
  show ?case
  proof (cases tail)
    case Nil
    then show ?thesis by simp
  next
    case (Cons t ts)
    with Nil.prems have ts: "ts = []" by simp
    show ?thesis
    proof (cases t)
      case (RotAdd m)
      with Cons ts show ?thesis by simp
    next
      case (RotDel m)
      with Cons ts Nil.prems(1) length_remove1_ge [of rot m] show ?thesis by simp
    qed
  qed
next
  case (Cons m ms)
  show ?case
  proof (cases "m = c")
    case False
    have "length (rot @ [m]) \<ge> 2" using Cons.prems(1) by simp
    from Cons.IH [OF this Cons.prems(2), of "idx + 1"]
    have "\<forall>s\<in>set (run_ops (single_loop [c] (idx + 1) ms @ tail) (rot @ [m])). s \<noteq> []" .
    moreover have "run_ops (single_loop [c] idx (m # ms) @ tail) rot =
                   (rot @ [m]) # run_ops (single_loop [c] (idx + 1) ms @ tail) (rot @ [m])"
      using False by simp
    ultimately show ?thesis by simp
  next
    case True
    show ?thesis
    proof (cases "idx = 0")
      case z: True
      from Cons.IH [OF Cons.prems, of "idx + 1"]
      have "\<forall>s\<in>set (run_ops (single_loop [c] (idx + 1) ms @ tail) rot). s \<noteq> []" .
      moreover have "single_loop [c] idx (m # ms) = single_loop [c] (idx + 1) ms"
        using True z by simp
      ultimately show ?thesis by simp
    next
      case nz: False
      have n: "remove1 c rot \<noteq> []" using Cons.prems(1) by (rule length_remove1_ge)
      have "length (remove1 c rot @ [c]) \<ge> 2"
        using n by (cases "remove1 c rot") auto
      from Cons.IH [OF this Cons.prems(2), of "idx + 1"]
      have i: "\<forall>s\<in>set (run_ops (single_loop [c] (idx + 1) ms @ tail) (remove1 c rot @ [c])).
                 s \<noteq> []" .
      have sl: "single_loop [c] idx (m # ms) @ tail =
                RotDel c # RotAdd c # (single_loop [c] (idx + 1) ms @ tail)"
        using True nz by simp
      show ?thesis
      proof (cases "c \<in> set rot")
        case False
        then show ?thesis unfolding sl by simp
      next
        case True
        then have "run_ops (RotDel c # RotAdd c # (single_loop [c] (idx + 1) ms @ tail)) rot =
                   remove1 c rot # (remove1 c rot @ [c]) #
                   run_ops (single_loop [c] (idx + 1) ms @ tail) (remove1 c rot @ [c])"
          by simp
        with i n show ?thesis unfolding sl by simp
      qed
    qed
  qed
qed

lemma adds_keep_first:
  assumes "first \<in> set rot"
  shows "\<forall>s\<in>set (run_ops (map RotAdd ys) rot). first \<in> set s"
  using assms
proof (induction ys arbitrary: rot)
  case Nil
  then show ?case by simp
next
  case (Cons y ys)
  from Cons.prems have "first \<in> set (rot @ [y])" by simp
  from Cons.IH [OF this] this show ?case by simp
qed

lemma dels_keep_first:
  assumes "first \<in> set rot" and "first \<notin> set xs"
  shows "\<forall>s\<in>set (run_ops (map RotDel xs @ map RotAdd ys) rot). first \<in> set s"
  using assms
proof (induction xs arbitrary: rot)
  case Nil
  from adds_keep_first [OF Nil.prems(1), of ys] show ?case by simp
next
  case (Cons x xs)
  from Cons.prems have k: "first \<in> set (remove1 x rot)" "first \<notin> set xs" by auto
  show ?case
  proof (cases "x \<in> set rot")
    case True
    then have "run_ops (map RotDel (x # xs) @ map RotAdd ys) rot =
               remove1 x rot # run_ops (map RotDel xs @ map RotAdd ys) (remove1 x rot)"
      by simp
    with Cons.IH [OF k] k(1) show ?thesis by simp
  next
    case False
    then show ?thesis by simp
  qed
qed

text \<open>
  C3, as amended. Let the desired and the current rotation be non-empty. Unless the current
  rotation is a single map and the desired rotation starts with that map twice, the
  rotation is non-empty after each command that \<open>set_maprotation\<close> sends.
\<close>

theorem set_maprotation_never_empty:
  assumes "set_maprotation set_order current rotation = Inr (cs, ret)"
    and "current \<noteq> []"
    and "\<forall>xs. distinct xs \<longrightarrow> distinct (set_order xs) \<and> set (set_order xs) = set xs"
    and "\<not> (\<exists>c. current = [c] \<and> take 2 rotation = [c, c])"
  shows "\<forall>rot\<in>set (run_ops cs current). rot \<noteq> []"
proof (cases "rotation = current")
  case True
  with assms(1) show ?thesis by (simp add: set_maprotation_def split: if_splits)
next
  case False
  from assms(1) have ne: "rotation \<noteq> []" by (auto simp: set_maprotation_def)
  then obtain first rest where r: "rotation = first # rest" by (cases rotation) auto
  show ?thesis
  proof (cases "length current = 1")
    case True
    then obtain c where c: "current = [c]" by (cases current) auto
    let ?tail = "if c \<notin> set rotation then [RotDel (last rotation)] else []"
    from assms(1) c False ne have cs: "cs = single_loop [c] 0 rotation @ ?tail"
      by (auto simp: set_maprotation_def)
    have t: "length ?tail \<le> 1" by simp
    show ?thesis
    proof (cases "first = c")
      case f: False
      have "length [c, first] \<ge> 2" by simp
      from nonempty_from_two [OF this t, of c 1 rest]
      have n: "\<forall>s\<in>set (run_ops (single_loop [c] 1 rest @ ?tail) [c, first]). s \<noteq> []" .
      have "single_loop [c] 0 rotation = RotAdd first # single_loop [c] 1 rest"
        using f r by simp
      then have "run_ops cs current =
                 [c, first] # run_ops (single_loop [c] 1 rest @ ?tail) [c, first]"
        unfolding cs c by simp
      with n show ?thesis by simp
    next
      case f: True
      with r c False obtain d ds where rest: "rest = d # ds" by (cases rest) auto
      with assms(4) c r f have d: "d \<noteq> c" by simp
      have "length [c, d] \<ge> 2" by simp
      from nonempty_from_two [OF this t, of c "Suc (Suc 0)" ds]
      have n: "\<forall>s\<in>set (run_ops (single_loop [c] (Suc (Suc 0)) ds @ ?tail) [c, d]). s \<noteq> []" .
      have "single_loop [c] 0 rotation = RotAdd d # single_loop [c] (Suc (Suc 0)) ds"
        using f d r rest by simp
      then have "run_ops cs current =
                 [c, d] # run_ops (single_loop [c] (Suc (Suc 0)) ds @ ?tail) [c, d]"
        unfolding cs c by simp
      with n show ?thesis by simp
    qed
  next
    case len: False
    let ?tr = "remdups (filter (\<lambda>m. m \<noteq> first) current)"
    from assms(3) have so: "set (set_order ?tr) = set current - {first}" by auto
    then have nf: "first \<notin> set (set_order ?tr)" by simp
    from assms(1) r False len have cs:
      "cs = (if set ?tr = set current then [RotAdd first] else []) @
            map RotDel (set_order ?tr) @ map RotAdd rest"
      by (simp add: set_maprotation_def Let_def)
    show ?thesis
    proof (cases "first \<in> set current")
      case True
      then have "set ?tr \<noteq> set current" by auto
      with cs have "cs = map RotDel (set_order ?tr) @ map RotAdd rest" by simp
      with dels_keep_first [OF True nf, of rest] show ?thesis by auto
    next
      case False
      then have "set ?tr = set current" by auto
      with cs have cs': "cs = RotAdd first # map RotDel (set_order ?tr) @ map RotAdd rest"
        by simp
      have "first \<in> set (current @ [first])" by simp
      from dels_keep_first [OF this nf, of rest]
      have "\<forall>s\<in>set (run_ops (map RotDel (set_order ?tr) @ map RotAdd rest) (current @ [first])).
              s \<noteq> []" by auto
      then show ?thesis unfolding cs' by simp
    qed
  qed
qed

theorem set_maprotation_never_empty_witness:
  "set_maprotation (\<lambda>xs. xs) [''A''] [''B'', ''A''] =
     Inr ([RotAdd ''B'', RotDel ''A'', RotAdd ''A''], [''B'', ''A''])
   \<and> list_all (\<lambda>rot. rot \<noteq> []) (run_ops [RotAdd ''B'', RotDel ''A'', RotAdd ''A''] [''A''])"
proof -
  have h: "set_maprotation (\<lambda>xs. xs) [''A''] [''B'', ''A''] =
     Inr ([RotAdd ''B'', RotDel ''A'', RotAdd ''A''], [''B'', ''A''])"
    by (simp add: set_maprotation_def)
  have p: "\<forall>xs. distinct xs \<longrightarrow> distinct ((\<lambda>xs. xs) xs) \<and> set ((\<lambda>xs. xs) xs) = set xs" by simp
  have n: "[''A''] \<noteq> ([] :: string list)" by simp
  have c: "\<not> (\<exists>c. [''A''] = [c] \<and> take 2 [''B'', ''A''] = [c, c])" by simp
  from set_maprotation_never_empty [OF h n p c]
  have "list_all (\<lambda>rot. rot \<noteq> []) (run_ops [RotAdd ''B'', RotDel ''A'', RotAdd ''A''] [''A''])"
    by (simp only: list_all_iff)
  with h show ?thesis by simp
qed

text \<open>
  As stated the claim fails: from the rotation \<open>A\<close> to the desired \<open>A, A\<close> the source
  removes \<open>A\<close>, the only map, before it adds it again.
\<close>

theorem set_maprotation_never_empty_counterexample:
  "set_maprotation (\<lambda>xs. xs) [''A''] [''A'', ''A''] = Inr ([RotDel ''A'', RotAdd ''A''], [''A'', ''A''])
   \<and> run_ops [RotDel ''A'', RotAdd ''A''] [''A''] = [[], [''A'']]"
  by (simp add: set_maprotation_def)

section \<open>Mutations and the cache\<close>





section \<open>The scoreboard\<close>

text \<open>The definitions that evaluate a division and a formatting, unfolded by \<open>simp\<close>.\<close>

lemmas float_defs = py_truediv_def float_quotient_def pow2_def round_half_even_def float_value_def
  bit_length.simps format_2f_def nat_digits.simps digit_char_def Let_def

lemma bit_length_pos: "0 < n \<Longrightarrow> 0 < bit_length n"
  by (subst bit_length.simps) simp

lemma bit_length_bounds: "0 < n \<Longrightarrow> 2 ^ (bit_length n - 1) \<le> n \<and> n < 2 ^ bit_length n"
proof (induction n rule: bit_length.induct)
  case (1 n)
  show ?case
  proof (cases "n div 2 = 0")
    case True
    with 1(2) have "n = 1" by (simp add: div_eq_0_iff) 
    then show ?thesis by (simp add: bit_length.simps)
  next
    case False
    then have h: "0 < n div 2" by simp
    from 1(2) have n0: "n \<noteq> 0" by simp
    from 1(1) [OF n0 h] have
      lo: "2 ^ (bit_length (n div 2) - 1) \<le> n div 2" and hi: "n div 2 < 2 ^ bit_length (n div 2)"
      by simp_all
    have bl: "bit_length n = Suc (bit_length (n div 2))"
      using n0 by (subst bit_length.simps) simp
    from bit_length_pos [OF h] obtain k where k: "bit_length (n div 2) = Suc k"
      by (cases "bit_length (n div 2)") auto
    from lo k have "2 * 2 ^ k \<le> 2 * (n div 2)" by simp
    also have "\<dots> \<le> n" by simp
    finally have 1: "2 ^ (bit_length n - 1) \<le> n" using bl k by simp
    from hi have "n div 2 + 1 \<le> 2 ^ bit_length (n div 2)" by simp
    then have "2 * (n div 2) + 2 \<le> 2 * 2 ^ bit_length (n div 2)" by simp
    moreover have "n < 2 * (n div 2) + 2" by presburger
    ultimately have 2: "n < 2 ^ bit_length n" using bl by simp
    from 1 2 show ?thesis by simp
  qed
qed

lemma bit_length_le:
  assumes "n < 2 ^ k"
  shows "bit_length n \<le> k"
proof (cases "n = 0")
  case True
  then show ?thesis by (simp add: bit_length.simps)
next
  case False
  then have "2 ^ (bit_length n - 1) \<le> n" using bit_length_bounds [of n] by simp
  from this assms have "(2::nat) ^ (bit_length n - 1) < 2 ^ k" by (rule le_less_trans)
  then have "bit_length n - 1 < k" by (simp only: power_strict_increasing_iff one_less_numeral_iff semiring_norm)
  then show ?thesis by simp
qed

lemma round_half_even_le:
  assumes "0 < d" and "n \<le> N * d"
  shows "round_half_even n d \<le> N"
proof -
  have f: "n div d \<le> N" using assms by (metis div_le_mono div_mult_self_is_m)
  show ?thesis
  proof (cases "n div d = N")
    case True
    have "n = (n div d) * d + n mod d" by simp
    with True assms(2) have "n mod d = 0" by (metis add_diff_cancel_left' diff_is_0_eq')
    with True assms(1) show ?thesis by (simp add: round_half_even_def Let_def)
  next
    case False
    with f have "n div d + 1 \<le> N" by simp
    then show ?thesis by (auto simp: round_half_even_def Let_def)
  qed
qed

lemma pow2_pos: "0 < pow2 k"
  by (simp add: pow2_def)

lemma pow2_nat: "0 \<le> k \<Longrightarrow> pow2 k = 2 ^ nat k"
  by (simp add: pow2_def)

lemma float_quotient_bounded:
  assumes "a < 2 ^ 1023" and "0 < b"
  shows "float_value (float_quotient a b) < pow2 1024"
proof (cases "a = 0")
  case True
  then show ?thesis by (simp add: float_quotient_def float_value_def pow2_pos)
next
  case False
  define c where "c = int (bit_length a) - int (bit_length b)"
  define fl where "fl = (if (if 0 \<le> c then b * 2 ^ nat c \<le> a else b \<le> a * 2 ^ nat (- c))
                   then c else c - 1)"
  define e where "e = max (fl - 52) (- 1074)"
  define m where "m = (if 0 \<le> e then round_half_even a (b * 2 ^ nat e)
                  else round_half_even (a * 2 ^ nat (- e)) b)"
  have fq: "float_quotient a b = \<lparr>mantissa = m, exponent = e\<rparr>"
    by (simp only: float_quotient_def Let_def c_def fl_def e_def m_def False if_False)
  have "bit_length a \<le> 1023" using assms(1) by (rule bit_length_le)
  moreover have "0 < bit_length b" using assms(2) by (rule bit_length_pos)
  ultimately have "c \<le> 1022" by (simp add: c_def)
  then have "fl \<le> 1022" by (simp add: fl_def)
  then have e: "e \<le> 970" by (simp add: e_def)
  have "rat_of_nat m * pow2 e \<le> 2 ^ 1023"
  proof (cases "0 \<le> e")
    case True
    define k where "k = nat e"
    have ke: "e = int k" "k \<le> 970" using True e by (simp_all add: k_def)
    have m: "m = round_half_even a (b * 2 ^ k)" using True by (simp add: m_def k_def)
    have "(2::nat) ^ 1023 = 2 ^ (1023 - k) * 2 ^ k"
      using ke(2) by (simp add: power_add [symmetric])
    also have "\<dots> \<le> 2 ^ (1023 - k) * (b * 2 ^ k)" using assms(2) by simp
    finally have "a \<le> 2 ^ (1023 - k) * (b * 2 ^ k)" using assms(1) by simp
    from round_half_even_le [OF _ this] assms(2) have "m \<le> 2 ^ (1023 - k)" by (simp add: m)
    then have "m * 2 ^ k \<le> 2 ^ (1023 - k) * 2 ^ k" by simp
    also have "\<dots> = 2 ^ 1023" using ke(2) by (simp add: power_add [symmetric])
    finally have "rat_of_nat (m * 2 ^ k) \<le> rat_of_nat (2 ^ 1023)" by (simp only: of_nat_le_iff)
    then show ?thesis by (simp add: pow2_def ke(1))
  next
    case False
    define k where "k = nat (- e)"
    have ke: "e = - int k" "0 < k" using False by (simp_all add: k_def)
    have m: "m = round_half_even (a * 2 ^ k) b" using False by (simp add: m_def k_def)
    have "a * 2 ^ k \<le> 2 ^ 1023 * 2 ^ k" using assms(1) by simp
    also have "\<dots> \<le> (2 ^ 1023 * 2 ^ k) * b" using assms(2) by simp
    finally have "m \<le> 2 ^ 1023 * 2 ^ k" using round_half_even_le [OF assms(2)] by (simp add: m)
    then have "rat_of_nat m \<le> rat_of_nat (2 ^ 1023 * 2 ^ k)" by (simp only: of_nat_le_iff)
    then have "rat_of_nat m \<le> 2 ^ 1023 * 2 ^ k" by simp
    then have "rat_of_nat m / 2 ^ k \<le> 2 ^ 1023" by (simp add: field_simps)
    then show ?thesis using ke by (simp add: pow2_def)
  qed
  also have "\<dots> < pow2 1024" by (simp add: pow2_def)
  finally show ?thesis by (simp add: fq float_value_def)
qed

lemma py_truediv_returns:
  assumes "a < 2 ^ 1023" and "0 < b"
  shows "py_truediv a b = Inr (float_quotient a b)"
  using float_quotient_bounded [OF assms] assms(2) by (simp add: py_truediv_def)

lemma py_truediv_Inr: "py_truediv a b = Inr r \<Longrightarrow> r = float_quotient a b"
  by (auto simp: py_truediv_def split: if_splits)

lemma count_logs_eq:
  "count_logs p ls k d =
     (k + length (filter (\<lambda>e. player e = Some p) ls),
      d + length (filter (\<lambda>e. player e \<noteq> Some p \<and> player2 e = Some p) ls))"
  by (induction ls arbitrary: k d) auto

lemma sorted_reverse_desc: "sorted_wrt (\<lambda>a b. f b \<le> f a) (sorted_reverse f xs)"
proof -
  have "sorted (map f (sort_key f (rev xs)))" by simp
  then have "sorted_wrt (\<lambda>a b. f a \<le> f b) (sort_key f (rev xs))"
    by (simp only: sorted_map)
  then show ?thesis
    by (simp add: sorted_reverse_def sorted_wrt_rev)
qed

lemma sorted_reverse_stable:
  "filter (\<lambda>x. f x = k) (sorted_reverse f xs) = filter (\<lambda>x. f x = k) xs"
proof -
  have "filter (\<lambda>x. f x = k) (rev (sort_key f (rev xs))) =
        rev (filter (\<lambda>x. f x = k) (sort_key f (rev xs)))"
    by (simp only: rev_filter)
  also have "\<dots> = rev (filter (\<lambda>x. f x = k) (rev xs))"
    by (simp only: sort_key_stable)
  also have "\<dots> = filter (\<lambda>x. f x = k) xs"
    by (simp add: rev_filter)
  finally show ?thesis by (simp add: sorted_reverse_def)
qed

lemma set_sorted_reverse: "set (sorted_reverse f xs) = set xs"
  by (simp add: sorted_reverse_def)

text \<open>Sorting by a key of the entry, seen on the formatted entries.\<close>

lemma sorted_reverse_formatted:
  assumes "\<And>e. e \<in> set xs \<Longrightarrow> g (F e) = f e"
  shows "sorted_wrt (\<lambda>a b. g b \<le> g a) (map F (sorted_reverse f xs))
       \<and> (\<forall>k. filter (\<lambda>o'. g o' = k) (map F (sorted_reverse f xs)) =
                filter (\<lambda>o'. g o' = k) (map F xs))"
proof -
  have eq: "e \<in> set (sorted_reverse f xs) \<Longrightarrow> g (F e) = f e" for e
    using assms by (simp add: set_sorted_reverse)
  have "sorted_wrt (\<lambda>a b. g (F b) \<le> g (F a)) (sorted_reverse f xs)"
    using sorted_reverse_desc [of f xs] eq
    by (auto intro: sorted_wrt_mono_rel [rotated])
  then have 1: "sorted_wrt (\<lambda>a b. g b \<le> g a) (map F (sorted_reverse f xs))"
    by (simp add: sorted_wrt_map)
  have 2: "filter (\<lambda>o'. g o' = k) (map F (sorted_reverse f xs)) =
           filter (\<lambda>o'. g o' = k) (map F xs)" for k
  proof -
    have "filter (\<lambda>o'. g o' = k) (map F (sorted_reverse f xs)) =
          map F (filter (\<lambda>e. g (F e) = k) (sorted_reverse f xs))"
      by (simp add: filter_map comp_def)
    also have "filter (\<lambda>e. g (F e) = k) (sorted_reverse f xs) =
               filter (\<lambda>e. f e = k) (sorted_reverse f xs)"
      using eq by (intro filter_cong) auto
    also have "\<dots> = filter (\<lambda>e. f e = k) xs" by (rule sorted_reverse_stable)
    also have "\<dots> = filter (\<lambda>e. g (F e) = k) xs"
      using assms by (intro filter_cong) auto
    also have "map F \<dots> = filter (\<lambda>o'. g o' = k) (map F xs)"
      by (simp add: filter_map comp_def)
    finally show ?thesis .
  qed
  from 1 2 show ?thesis by blast
qed


lemma count_logs_le:
  "fst (count_logs p ls 0 0) \<le> length ls \<and> snd (count_logs p ls 0 0) \<le> length ls"
  by (simp add: count_logs_eq)

lemma scoreboard_loop_step:
  assumes "count_logs q ls 0 0 = (kills, death)"
  shows "scoreboard_loop (Some q # ps) ls acc =
           (if q = [] \<or> (kills = 0 \<and> death = 0) then scoreboard_loop ps ls acc
            else (case py_truediv kills (max death 1) of
                    Inl e \<Rightarrow> Inl e
                  | Inr r \<Rightarrow>
                      scoreboard_loop ps ls
                        (acc @ [\<lparr>s_player = q, real_kills = kills, real_death = death,
                                 ratio = r\<rparr>])))"
  using assms by simp

lemma score_entry_step:
  assumes "count_logs q ls 0 0 = (kills, death)"
  shows "score_entry ls (Some q) =
           (if q = [] \<or> (kills = 0 \<and> death = 0) then None
            else Some \<lparr>s_player = q, real_kills = kills, real_death = death,
                       ratio = float_quotient kills (max death 1)\<rparr>)"
  using assms by (simp add: score_entry_def)

lemma scoreboard_loop_Inr:
  "scoreboard_loop ps ls acc = Inr sc \<Longrightarrow> sc = acc @ List.map_filter (score_entry ls) ps"
proof (induction ps arbitrary: acc)
  case Nil
  then show ?case by (simp add: map_filter_simps)
next
  case (Cons p ps)
  show ?case
  proof (cases p)
    case None
    with Cons.prems have "scoreboard_loop ps ls acc = Inr sc" by simp
    from Cons.IH [OF this] None show ?thesis by (simp add: map_filter_simps score_entry_def)
  next
    case (Some q)
    obtain kills death where c: "count_logs q ls 0 0 = (kills, death)" by (cases "count_logs q ls 0 0")
    note st = scoreboard_loop_step [OF c, of ps acc] score_entry_step [OF c]
    show ?thesis
    proof (cases "q = [] \<or> (kills = 0 \<and> death = 0)")
      case True
      with Cons.prems Some st have "scoreboard_loop ps ls acc = Inr sc" by simp
      from Cons.IH [OF this] Some st True show ?thesis
        by (simp add: map_filter_simps)
    next
      case False
      with Cons.prems Some st(1) obtain r where
        r: "py_truediv kills (max death 1) = Inr r" and
        l: "scoreboard_loop ps ls
              (acc @ [\<lparr>s_player = q, real_kills = kills, real_death = death, ratio = r\<rparr>]) = Inr sc"
        by (cases "py_truediv kills (max death 1)") simp_all
      from py_truediv_Inr [OF r] have r': "r = float_quotient kills (max death 1)" .
      from Cons.IH [OF l] Some st(2) False r' show ?thesis
        by (simp add: map_filter_simps)
    qed
  qed
qed

lemma scoreboard_loop_returns:
  assumes "length ls < 2 ^ 1023"
  shows "\<exists>sc. scoreboard_loop ps ls acc = Inr sc"
proof (induction ps arbitrary: acc)
  case Nil
  then show ?case by simp
next
  case (Cons p ps)
  show ?case
  proof (cases p)
    case None
    then show ?thesis using Cons.IH by simp
  next
    case (Some q)
    obtain kills death where c: "count_logs q ls 0 0 = (kills, death)" by (cases "count_logs q ls 0 0")
    from count_logs_le [of q ls] c assms have "kills < 2 ^ 1023" by simp
    then have "py_truediv kills (max death 1) = Inr (float_quotient kills (max death 1))"
      by (rule py_truediv_returns) simp
    then show ?thesis using Some scoreboard_loop_step [OF c, of ps acc] Cons.IH by simp
  qed
qed

lemma score_entry_Some:
  assumes "score_entry ls p = Some e"
  shows "p = Some (s_player e) \<and> s_player e \<noteq> []
       \<and> real_kills e = length (filter (\<lambda>ev. player ev = Some (s_player e)) ls)
       \<and> real_death e =
           length (filter (\<lambda>ev. player ev \<noteq> Some (s_player e) \<and> player2 ev = Some (s_player e)) ls)
       \<and> ratio e = float_quotient (real_kills e) (max (real_death e) 1)
       \<and> \<not> (real_kills e = 0 \<and> real_death e = 0)"
  using assms
  by (auto simp: score_entry_def count_logs_eq split: option.splits if_splits)

lemma format_score_keys:
  assumes "score_entry ls p = Some e"
  shows "ratio_of (format_score e) = ratio e"
    and "o_player (format_score e) = s_player e"
    and "o_real_kills (format_score e) = real_kills e"
    and "o_real_death (format_score e) = real_death e"
  using score_entry_Some [OF assms] by (simp_all add: format_score_def ratio_of_def)


lemma scoreboard_loop_small:
  assumes "length ls < 2 ^ 1023"
  shows "scoreboard_loop ps ls acc = Inr (acc @ List.map_filter (score_entry ls) ps)"
proof -
  from scoreboard_loop_returns [OF assms, of ps acc] obtain sc where
    sc: "scoreboard_loop ps ls acc = Inr sc" by blast
  from scoreboard_loop_Inr [OF sc] sc show ?thesis by simp
qed

text \<open>
  C5. \<open>get_scoreboard\<close> returns for each of the four keys on a batch of fewer than
  \<open>2 ^ 1023\<close> events (the division raises when the quotient is beyond the doubles).
  Whenever it returns: for every entry, \<open>kills / max(death, 1)\<close> on the entry's counts
  evaluates to a float, and the entry reports that float formatted to two decimals; its
  counts are the kills and deaths of its player in the batch, and no entry has zero kills
  and zero deaths; for each of the four keys the entries are sorted in descending order
  of the key, which for the ratio is the float, entries of equal key standing in the
  order in which the players of the batch gave them; and the scoreboard holds exactly
  the entries of the batch's players.
\<close>

theorem get_scoreboard_law:
  "(sort' \<in> set sort_keys \<and> length (logs batch) < 2 ^ 1023 \<longrightarrow>
      (\<exists>sb. get_scoreboard batch sort' = Inr sb))
   \<and> (\<forall>sb. get_scoreboard batch sort' = Inr sb \<longrightarrow>
         (\<forall>o'\<in>set sb.
            py_truediv (o_real_kills o') (max (o_real_death o') 1) = Inr (ratio_of o')
          \<and> o_ratio o' = format_2f (ratio_of o')
          \<and> \<not> (o_real_kills o' = 0 \<and> o_real_death o' = 0)
          \<and> o_real_kills o' =
              length (filter (\<lambda>ev. player ev = Some (o_player o')) (logs batch))
          \<and> o_real_death o' =
              length (filter (\<lambda>ev. player ev \<noteq> Some (o_player o') \<and>
                                    player2 ev = Some (o_player o')) (logs batch)))
       \<and> (sort' = ''ratio'' \<longrightarrow>
            sorted_wrt (\<lambda>a b. float_value (ratio_of b) \<le> float_value (ratio_of a)) sb
          \<and> (\<forall>k. filter (\<lambda>o'. float_value (ratio_of o') = k) sb =
                   filter (\<lambda>o'. float_value (ratio_of o') = k) (unsorted_scoreboard batch)))
       \<and> (sort' = ''player'' \<longrightarrow>
            sorted_wrt (\<lambda>a b. o_player b \<le> o_player a) sb
          \<and> (\<forall>k. filter (\<lambda>o'. o_player o' = k) sb =
                   filter (\<lambda>o'. o_player o' = k) (unsorted_scoreboard batch)))
       \<and> (sort' = ''(real) kills'' \<longrightarrow>
            sorted_wrt (\<lambda>a b. o_real_kills b \<le> o_real_kills a) sb
          \<and> (\<forall>k. filter (\<lambda>o'. o_real_kills o' = k) sb =
                   filter (\<lambda>o'. o_real_kills o' = k) (unsorted_scoreboard batch)))
       \<and> (sort' = ''(real) death'' \<longrightarrow>
            sorted_wrt (\<lambda>a b. o_real_death b \<le> o_real_death a) sb
          \<and> (\<forall>k. filter (\<lambda>o'. o_real_death o' = k) sb =
                   filter (\<lambda>o'. o_real_death o' = k) (unsorted_scoreboard batch)))
       \<and> mset sb = mset (unsorted_scoreboard batch))"
proof -
  let ?F = "format_score"
  let ?sc = "List.map_filter (score_entry (logs batch)) (players batch)"
  have un: "unsorted_scoreboard batch = map ?F ?sc"
    by (simp add: unsorted_scoreboard_def)
  have ent: "\<exists>p. score_entry (logs batch) p = Some e" if "e \<in> set ?sc" for e
    using that by (auto simp: map_filter_def)
  have 0: "\<exists>sb. get_scoreboard batch sort' = Inr sb"
    if "sort' \<in> set sort_keys \<and> length (logs batch) < 2 ^ 1023"
  proof -
    from that scoreboard_loop_returns [of "logs batch" "players batch" "[]"] obtain sc where
      "scoreboard_loop (players batch) (logs batch) [] = Inr sc" by blast
    moreover from that have "\<exists>srt. sort_scoreboard sort' sc = Inr srt"
      by (auto simp: sort_scoreboard_def sort_keys_def)
    ultimately show ?thesis by (auto simp: get_scoreboard_def)
  qed
  have rest: "(\<forall>o'\<in>set sb.
            py_truediv (o_real_kills o') (max (o_real_death o') 1) = Inr (ratio_of o')
          \<and> o_ratio o' = format_2f (ratio_of o')
          \<and> \<not> (o_real_kills o' = 0 \<and> o_real_death o' = 0)
          \<and> o_real_kills o' =
              length (filter (\<lambda>ev. player ev = Some (o_player o')) (logs batch))
          \<and> o_real_death o' =
              length (filter (\<lambda>ev. player ev \<noteq> Some (o_player o') \<and>
                                    player2 ev = Some (o_player o')) (logs batch)))
       \<and> (sort' = ''ratio'' \<longrightarrow>
            sorted_wrt (\<lambda>a b. float_value (ratio_of b) \<le> float_value (ratio_of a)) sb
          \<and> (\<forall>k. filter (\<lambda>o'. float_value (ratio_of o') = k) sb =
                   filter (\<lambda>o'. float_value (ratio_of o') = k) (unsorted_scoreboard batch)))
       \<and> (sort' = ''player'' \<longrightarrow>
            sorted_wrt (\<lambda>a b. o_player b \<le> o_player a) sb
          \<and> (\<forall>k. filter (\<lambda>o'. o_player o' = k) sb =
                   filter (\<lambda>o'. o_player o' = k) (unsorted_scoreboard batch)))
       \<and> (sort' = ''(real) kills'' \<longrightarrow>
            sorted_wrt (\<lambda>a b. o_real_kills b \<le> o_real_kills a) sb
          \<and> (\<forall>k. filter (\<lambda>o'. o_real_kills o' = k) sb =
                   filter (\<lambda>o'. o_real_kills o' = k) (unsorted_scoreboard batch)))
       \<and> (sort' = ''(real) death'' \<longrightarrow>
            sorted_wrt (\<lambda>a b. o_real_death b \<le> o_real_death a) sb
          \<and> (\<forall>k. filter (\<lambda>o'. o_real_death o' = k) sb =
                   filter (\<lambda>o'. o_real_death o' = k) (unsorted_scoreboard batch)))
       \<and> mset sb = mset (unsorted_scoreboard batch)"
    if ret: "get_scoreboard batch sort' = Inr sb" for sb
  proof -
    from ret obtain sc srt where
      loop: "scoreboard_loop (players batch) (logs batch) [] = Inr sc" and
      srt0: "sort_scoreboard sort' sc = Inr srt" and sb: "sb = map ?F srt"
      by (auto simp: get_scoreboard_def split: sum.splits)
    from scoreboard_loop_Inr [OF loop] have sc: "sc = ?sc" by simp
    note srt = srt0 [unfolded sc]
    have perm: "mset srt = mset ?sc"
      using srt by (auto simp: sort_scoreboard_def sorted_reverse_def split: if_splits)
    then have sets: "set srt = set ?sc" by (rule mset_eq_setD)
    have div: "py_truediv (real_kills e) (max (real_death e) 1) = Inr (ratio e)"
      if e: "e \<in> set ?sc" for e
    proof -
      have "\<forall>x\<in>set acc. py_truediv (real_kills x) (max (real_death x) 1) = Inr (ratio x) \<Longrightarrow>
            scoreboard_loop ps (logs batch) acc = Inr out \<Longrightarrow>
            \<forall>x\<in>set out. py_truediv (real_kills x) (max (real_death x) 1) = Inr (ratio x)"
        for ps acc out
      proof (induction ps arbitrary: acc)
        case Nil
        then show ?case by simp
      next
        case (Cons p ps)
        show ?case
        proof (cases p)
          case None
          with Cons.prems(2) have "scoreboard_loop ps (logs batch) acc = Inr out" by simp
          from Cons.IH [OF Cons.prems(1) this] show ?thesis .
        next
          case (Some q)
          obtain kills death where c: "count_logs q (logs batch) 0 0 = (kills, death)"
            by (cases "count_logs q (logs batch) 0 0")
          note st = scoreboard_loop_step [OF c, of ps acc]
          show ?thesis
          proof (cases "q = [] \<or> (kills = 0 \<and> death = 0)")
            case True
            with Cons.prems(2) Some st have "scoreboard_loop ps (logs batch) acc = Inr out" by simp
            from Cons.IH [OF Cons.prems(1) this] show ?thesis .
          next
            case False
            with Cons.prems(2) Some st obtain r where
              r: "py_truediv kills (max death 1) = Inr r" and
              l: "scoreboard_loop ps (logs batch)
                    (acc @ [\<lparr>s_player = q, real_kills = kills, real_death = death, ratio = r\<rparr>]) =
                  Inr out"
              by (cases "py_truediv kills (max death 1)") simp_all
            have "\<forall>x\<in>set (acc @ [\<lparr>s_player = q, real_kills = kills, real_death = death,
                                      ratio = r\<rparr>]).
                    py_truediv (real_kills x) (max (real_death x) 1) = Inr (ratio x)"
              using Cons.prems(1) r by simp
            from Cons.IH [OF this l] show ?thesis .
          qed
        qed
      qed
      from this [of "[]" "players batch" sc] loop have
        "\<forall>x\<in>set sc. py_truediv (real_kills x) (max (real_death x) 1) = Inr (ratio x)"
        by simp
      with e sc show ?thesis by simp
    qed
    have 1: "\<forall>o'\<in>set sb.
            py_truediv (o_real_kills o') (max (o_real_death o') 1) = Inr (ratio_of o')
          \<and> o_ratio o' = format_2f (ratio_of o')
          \<and> \<not> (o_real_kills o' = 0 \<and> o_real_death o' = 0)
          \<and> o_real_kills o' =
              length (filter (\<lambda>ev. player ev = Some (o_player o')) (logs batch))
          \<and> o_real_death o' =
              length (filter (\<lambda>ev. player ev \<noteq> Some (o_player o') \<and>
                                    player2 ev = Some (o_player o')) (logs batch))"
    proof
      fix o' assume "o' \<in> set sb"
      with sb sets obtain e where e: "e \<in> set ?sc" and o': "o' = ?F e" by auto
      from ent [OF e] obtain p where p: "score_entry (logs batch) p = Some e" by blast
      have a: "o_ratio o' = format_2f (ratio e)" "o_player o' = s_player e"
        "o_real_kills o' = real_kills e" "o_real_death o' = real_death e"
        using o' by (simp_all add: format_score_def)
      have b: "ratio_of o' = ratio e" using format_score_keys(1) [OF p] o' by simp
      show "py_truediv (o_real_kills o') (max (o_real_death o') 1) = Inr (ratio_of o')
          \<and> o_ratio o' = format_2f (ratio_of o')
          \<and> \<not> (o_real_kills o' = 0 \<and> o_real_death o' = 0)
          \<and> o_real_kills o' =
              length (filter (\<lambda>ev. player ev = Some (o_player o')) (logs batch))
          \<and> o_real_death o' =
              length (filter (\<lambda>ev. player ev \<noteq> Some (o_player o') \<and>
                                    player2 ev = Some (o_player o')) (logs batch))"
        unfolding a b using score_entry_Some [OF p] div [OF e] by blast
    qed
    have 2: "sorted_wrt (\<lambda>a b. float_value (ratio_of b) \<le> float_value (ratio_of a)) sb
          \<and> (\<forall>k. filter (\<lambda>o'. float_value (ratio_of o') = k) sb =
                   filter (\<lambda>o'. float_value (ratio_of o') = k) (unsorted_scoreboard batch))"
      if "sort' = ''ratio''"
    proof -
      from that srt have "srt = sorted_reverse (\<lambda>o'. float_value (ratio o')) ?sc"
        by (simp add: sort_scoreboard_def)
      moreover have "float_value (ratio_of (?F e)) = float_value (ratio e)" if "e \<in> set ?sc" for e
        using ent [OF that] format_score_keys(1) by fastforce
      ultimately show ?thesis
        using sorted_reverse_formatted
                [of ?sc "\<lambda>o'. float_value (ratio_of o')" ?F "\<lambda>o'. float_value (ratio o')"] sb un
        by simp
    qed
    have 3: "sorted_wrt (\<lambda>a b. o_player b \<le> o_player a) sb
          \<and> (\<forall>k. filter (\<lambda>o'. o_player o' = k) sb =
                   filter (\<lambda>o'. o_player o' = k) (unsorted_scoreboard batch))"
      if "sort' = ''player''"
    proof -
      from that srt have "srt = sorted_reverse s_player ?sc" by (simp add: sort_scoreboard_def)
      moreover have "o_player (?F e) = s_player e" for e by (simp add: format_score_def)
      ultimately show ?thesis
        using sorted_reverse_formatted [of ?sc o_player ?F s_player] sb un by simp
    qed
    have 4: "sorted_wrt (\<lambda>a b. o_real_kills b \<le> o_real_kills a) sb
          \<and> (\<forall>k. filter (\<lambda>o'. o_real_kills o' = k) sb =
                   filter (\<lambda>o'. o_real_kills o' = k) (unsorted_scoreboard batch))"
      if "sort' = ''(real) kills''"
    proof -
      from that srt have "srt = sorted_reverse real_kills ?sc" by (simp add: sort_scoreboard_def)
      moreover have "o_real_kills (?F e) = real_kills e" for e by (simp add: format_score_def)
      ultimately show ?thesis
        using sorted_reverse_formatted [of ?sc o_real_kills ?F real_kills] sb un by simp
    qed
    have 5: "sorted_wrt (\<lambda>a b. o_real_death b \<le> o_real_death a) sb
          \<and> (\<forall>k. filter (\<lambda>o'. o_real_death o' = k) sb =
                   filter (\<lambda>o'. o_real_death o' = k) (unsorted_scoreboard batch))"
      if "sort' = ''(real) death''"
    proof -
      from that srt have "srt = sorted_reverse real_death ?sc" by (simp add: sort_scoreboard_def)
      moreover have "o_real_death (?F e) = real_death e" for e by (simp add: format_score_def)
      ultimately show ?thesis
        using sorted_reverse_formatted [of ?sc o_real_death ?F real_death] sb un by simp
    qed
    have 6: "mset sb = mset (unsorted_scoreboard batch)"
      using perm sb un by (metis mset_map)
    from 1 2 3 4 5 6 show ?thesis by blast
  qed
  from 0 rest show ?thesis by blast
qed





theorem get_scoreboard_law_witness:
  "(let kill = (\<lambda>p q.
           \<lparr>version = 1, timestamp_ms = 0, relative_time_ms = 0, raw = [],
             line_without_time = [], action = Some ''KILL'', player = Some p,
             steam_id_64_1 = None, player2 = Some q, steam_id_64_2 = None, weapon = None,
             message = [], sub_content = None\<rparr>);
        batch = \<lparr>actions = [], players = [Some ''bob'', None, Some ''ann'', Some ''cy'', Some ''dee''],
                  logs = [kill ''ann'' ''bob'', kill ''bob'' ''ann'', kill ''ann'' ''bob'',
                          kill ''dee'' ''bob'']\<rparr>
    in get_scoreboard batch ''ratio'') =
     Inr [\<lparr>o_player = ''ann'', o_real_kills = 2, o_real_death = 1, o_ratio = ''2.00''\<rparr>,
          \<lparr>o_player = ''dee'', o_real_kills = 1, o_real_death = 0, o_ratio = ''1.00''\<rparr>,
          \<lparr>o_player = ''bob'', o_real_kills = 1, o_real_death = 3, o_ratio = ''0.33''\<rparr>]
   \<and> sorted_wrt (\<lambda>a b. float_value (ratio_of b) \<le> float_value (ratio_of a))
         [\<lparr>o_player = ''ann'', o_real_kills = 2, o_real_death = 1, o_ratio = ''2.00''\<rparr>,
          \<lparr>o_player = ''dee'', o_real_kills = 1, o_real_death = 0, o_ratio = ''1.00''\<rparr>,
          \<lparr>o_player = ''bob'', o_real_kills = 1, o_real_death = 3, o_ratio = ''0.33''\<rparr>]"
proof -
  let ?kill = "\<lambda>p q.
           \<lparr>version = 1, timestamp_ms = 0, relative_time_ms = 0, raw = [],
             line_without_time = [], action = Some ''KILL'', player = Some p,
             steam_id_64_1 = None, player2 = Some q, steam_id_64_2 = None, weapon = None,
             message = [], sub_content = None\<rparr>"
  let ?logs = "[?kill ''ann'' ''bob'', ?kill ''bob'' ''ann'', ?kill ''ann'' ''bob'',
                ?kill ''dee'' ''bob'']"
  let ?batch = "\<lparr>actions = [], players = [Some ''bob'', None, Some ''ann'', Some ''cy'', Some ''dee''],
                  logs = ?logs\<rparr>"
  let ?two = "\<lparr>mantissa = 4503599627370496, exponent = - 51\<rparr>"
  let ?one = "\<lparr>mantissa = 4503599627370496, exponent = - 52\<rparr>"
  let ?third = "\<lparr>mantissa = 6004799503160661, exponent = - 54\<rparr>"
  have q: "float_quotient 2 1 = ?two" "float_quotient 1 1 = ?one" "float_quotient 1 3 = ?third"
    by (simp_all add: float_defs)
  have f: "format_2f ?two = ''2.00''" "format_2f ?one = ''1.00''" "format_2f ?third = ''0.33''"
    by (simp_all add: float_defs)
  have c: "count_logs ''bob'' ?logs 0 0 = (1, 3)" "count_logs ''ann'' ?logs 0 0 = (2, 1)"
    "count_logs ''cy'' ?logs 0 0 = (0, 0)" "count_logs ''dee'' ?logs 0 0 = (1, 0)"
    by simp_all
  have e: "score_entry ?logs (Some ''bob'') =
             Some \<lparr>s_player = ''bob'', real_kills = 1, real_death = 3, ratio = ?third\<rparr>"
    "score_entry ?logs (Some ''ann'') =
             Some \<lparr>s_player = ''ann'', real_kills = 2, real_death = 1, ratio = ?two\<rparr>"
    "score_entry ?logs (Some ''cy'') = None"
    "score_entry ?logs (Some ''dee'') =
             Some \<lparr>s_player = ''dee'', real_kills = 1, real_death = 0, ratio = ?one\<rparr>"
    "score_entry ?logs None = None"
    using score_entry_step [OF c(1)] score_entry_step [OF c(2)] score_entry_step [OF c(3)]
      score_entry_step [OF c(4)] q
    by (simp_all add: score_entry_def)
  have "length ?logs < 2 ^ 1023" by simp
  from scoreboard_loop_small [OF this, of "[Some ''bob'', None, Some ''ann'', Some ''cy'', Some ''dee'']" "[]"]
  have l: "scoreboard_loop (players ?batch) (logs ?batch) [] =
     Inr [\<lparr>s_player = ''bob'', real_kills = 1, real_death = 3, ratio = ?third\<rparr>,
          \<lparr>s_player = ''ann'', real_kills = 2, real_death = 1, ratio = ?two\<rparr>,
          \<lparr>s_player = ''dee'', real_kills = 1, real_death = 0, ratio = ?one\<rparr>]"
    by (simp only: log_batch.select_convs map_filter_simps e option.simps append_Nil)
  have s: "sort_scoreboard ''ratio''
     [\<lparr>s_player = ''bob'', real_kills = 1, real_death = 3, ratio = ?third\<rparr>,
      \<lparr>s_player = ''ann'', real_kills = 2, real_death = 1, ratio = ?two\<rparr>,
      \<lparr>s_player = ''dee'', real_kills = 1, real_death = 0, ratio = ?one\<rparr>] =
     Inr [\<lparr>s_player = ''ann'', real_kills = 2, real_death = 1, ratio = ?two\<rparr>,
          \<lparr>s_player = ''dee'', real_kills = 1, real_death = 0, ratio = ?one\<rparr>,
          \<lparr>s_player = ''bob'', real_kills = 1, real_death = 3, ratio = ?third\<rparr>]"
    by (simp add: sort_scoreboard_def sorted_reverse_def float_value_def pow2_def)
  have m: "map format_score
     [\<lparr>s_player = ''ann'', real_kills = 2, real_death = 1, ratio = ?two\<rparr>,
      \<lparr>s_player = ''dee'', real_kills = 1, real_death = 0, ratio = ?one\<rparr>,
      \<lparr>s_player = ''bob'', real_kills = 1, real_death = 3, ratio = ?third\<rparr>] =
     [\<lparr>o_player = ''ann'', o_real_kills = 2, o_real_death = 1, o_ratio = ''2.00''\<rparr>,
      \<lparr>o_player = ''dee'', o_real_kills = 1, o_real_death = 0, o_ratio = ''1.00''\<rparr>,
      \<lparr>o_player = ''bob'', o_real_kills = 1, o_real_death = 3, o_ratio = ''0.33''\<rparr>]"
    by (simp add: format_score_def f)
  have h: "get_scoreboard ?batch ''ratio'' =
     Inr [\<lparr>o_player = ''ann'', o_real_kills = 2, o_real_death = 1, o_ratio = ''2.00''\<rparr>,
          \<lparr>o_player = ''dee'', o_real_kills = 1, o_real_death = 0, o_ratio = ''1.00''\<rparr>,
          \<lparr>o_player = ''bob'', o_real_kills = 1, o_real_death = 3, o_ratio = ''0.33''\<rparr>]"
    by (simp only: get_scoreboard_def l s m sum.case)
  have k: "''ratio'' \<in> set sort_keys \<and> length (logs ?batch) < 2 ^ 1023"
    by (simp add: sort_keys_def)
  from get_scoreboard_law [of "''ratio''" ?batch] k h
  have "sorted_wrt (\<lambda>a b. float_value (ratio_of b) \<le> float_value (ratio_of a))
         [\<lparr>o_player = ''ann'', o_real_kills = 2, o_real_death = 1, o_ratio = ''2.00''\<rparr>,
          \<lparr>o_player = ''dee'', o_real_kills = 1, o_real_death = 0, o_ratio = ''1.00''\<rparr>,
          \<lparr>o_player = ''bob'', o_real_kills = 1, o_real_death = 3, o_ratio = ''0.33''\<rparr>]"
    by blast
  with h show ?thesis by (simp only: Let_def) 
qed

section \<open>The VIP list is sorted by name\<close>

lemma vip_loop_Inr:
  "vip_loop res acc = Inr l \<Longrightarrow> \<exists>ds. map parse_vip_item res = map Inr ds \<and> l = acc @ ds"
proof (induction res arbitrary: acc)
  case Nil
  then show ?case by simp
next
  case (Cons item res)
  from Cons.prems obtain d where d: "parse_vip_item item = Inr d" and r: "vip_loop res (acc @ [d]) = Inr l"
    by (auto split: sum.splits)
  from Cons.IH [OF r] obtain ds where "map parse_vip_item res = map Inr ds" "l = (acc @ [d]) @ ds"
    by blast
  with d have "map parse_vip_item (item # res) = map Inr (d # ds) \<and> l = acc @ (d # ds)"
    by simp
  then show ?case by blast
qed

lemma vip_loop_all_parse:
  "map parse_vip_item res = map Inr ds \<Longrightarrow> vip_loop res acc = Inr (acc @ ds)"
proof (induction res arbitrary: acc ds)
  case Nil
  then show ?case by simp
next
  case (Cons item res)
  then obtain d ds' where ds: "ds = d # ds'" by (cases ds) auto
  with Cons.prems have d: "parse_vip_item item = Inr d" and r: "map parse_vip_item res = map Inr ds'"
    by auto
  show ?case using Cons.IH [OF r, of "acc @ [d]"] d ds by simp
qed

lemma map_name_sort_key: "map f (sort_key f xs) = sort (map f xs)"
  by (rule properties_for_sort [symmetric]) simp_all

lemma mset_map_Inr_perm:
  fixes ys :: "('e + 'd) list" and ds :: "'d list"
  assumes "mset ys = mset (map Inr ds)"
  shows "\<exists>ds'. ys = map Inr ds' \<and> mset ds' = mset ds"
proof -
  let ?I = "Inr :: 'd \<Rightarrow> 'e + 'd"
  have "set ys = set (map ?I ds)" using assms by (rule mset_eq_setD)
  then have "\<forall>y\<in>set ys. ?I (projr y) = y" by auto
  then have "map (\<lambda>y. ?I (projr y)) ys = ys" by (intro map_idI) simp
  then have ys: "ys = map ?I (map projr ys)" by (simp add: comp_def)
  have "mset (map projr ys) = image_mset projr (mset (map ?I ds))"
    using assms by simp
  also have "\<dots> = mset ds" by (simp add: multiset.map_comp comp_def)
  finally have "mset (map projr ys) = mset ds" .
  with ys show ?thesis by blast
qed

lemma partition_first_space:
  "CHR '' '' \<in> set item \<Longrightarrow> \<exists>b a. partition_first '' '' item = Some (b, a)"
  by (induction item) (auto simp: startswith_def)

lemma parse_vip_item_space:
  "CHR '' '' \<in> set item \<Longrightarrow> \<exists>d. parse_vip_item item = Inr d"
  using partition_first_space [of item]
  by (auto simp: parse_vip_item_def split1_def split: option.splits)

lemma vip_items_all_parse:
  assumes "\<forall>item\<in>set res. CHR '' '' \<in> set item"
  shows "\<exists>ds. map parse_vip_item res = map Inr ds"
proof -
  have "\<forall>item\<in>set res. Inr (projr (parse_vip_item item)) = parse_vip_item item"
    using assms parse_vip_item_space by fastforce
  then have "map parse_vip_item res = map Inr (map (\<lambda>item. projr (parse_vip_item item)) res)"
    by simp
  then show ?thesis by blast
qed

text \<open>What a call of \<open>get_vip_ids\<close> that returns has returned.\<close>

lemma get_vip_ids_returned:
  assumes "get_vip_ids res = Inr l"
  shows "sorted (map name l)
       \<and> (\<exists>ds. map parse_vip_item res = map Inr ds \<and> mset l = mset ds)
       \<and> (\<forall>res'. mset res' = mset res \<longrightarrow>
            (\<exists>l'. get_vip_ids res' = Inr l' \<and> mset l' = mset l \<and> map name l' = map name l))"
proof -
  from assms obtain l0 where l0: "vip_loop res [] = Inr l0" and l: "l = sort_key name l0"
    by (auto simp: get_vip_ids_def split: sum.splits)
  from vip_loop_Inr [OF l0] have ds: "map parse_vip_item res = map Inr l0" by simp
  have s: "sorted (map name l)" using l by simp
  have m: "mset l = mset l0" using l by simp
  have p: "\<exists>l'. get_vip_ids res' = Inr l' \<and> mset l' = mset l \<and> map name l' = map name l"
    if perm: "mset res' = mset res" for res'
  proof -
    have "mset (map parse_vip_item res') = mset (map Inr l0)"
      using perm ds by (metis mset_map)
    from mset_map_Inr_perm [OF this] obtain ds' where
      ds': "map parse_vip_item res' = map Inr ds'" and ms: "mset ds' = mset l0" by blast
    from vip_loop_all_parse [OF ds', of "[]"] have g: "get_vip_ids res' = Inr (sort_key name ds')"
      by (simp add: get_vip_ids_def)
    have "mset (map name ds') = mset (map name l0)" using ms by (metis mset_map)
    then have "sort (map name ds') = sort (map name l0)"
      by (intro properties_for_sort) simp_all
    then have "map name (sort_key name ds') = map name l"
      using l by (simp add: map_name_sort_key)
    with g ms m show ?thesis by simp
  qed
  from s ds m p show ?thesis by blast
qed

text \<open>
  C10. An entry of the server's VIP list parses when it holds a space, the separator of
  \<open>item.split(" ", 1)\<close>. For every response whose entries all parse, \<open>get_vip_ids\<close>
  returns a list; the list holds exactly the parsed records, it is sorted in ascending
  order of the name, and a response with the same entries in any other order returns as
  well, with the same records and the same sequence of names.
\<close>

theorem get_vip_ids_sorted_by_name:
  assumes "\<forall>item\<in>set res. CHR '' '' \<in> set item"
  shows "\<exists>l ds. get_vip_ids res = Inr l
         \<and> map parse_vip_item res = map Inr ds
         \<and> mset l = mset ds
         \<and> sorted (map name l)
         \<and> (\<forall>res'. mset res' = mset res \<longrightarrow>
              (\<exists>l'. get_vip_ids res' = Inr l' \<and> mset l' = mset l \<and> map name l' = map name l))"
proof -
  from vip_items_all_parse [OF assms] obtain ds where
    ds: "map parse_vip_item res = map Inr ds"
    by blast
  from vip_loop_all_parse [OF ds, of "[]"] have g: "get_vip_ids res = Inr (sort_key name ds)"
    by (simp add: get_vip_ids_def)
  from get_vip_ids_returned [OF g] have
    p: "\<forall>res'. mset res' = mset res \<longrightarrow>
          (\<exists>l'. get_vip_ids res' = Inr l' \<and> mset l' = mset (sort_key name ds)
                \<and> map name l' = map name (sort_key name ds))"
    by blast
  have "mset (sort_key name ds) = mset ds" "sorted (map name (sort_key name ds))"
    by simp_all
  with g ds p show ?thesis by blast
qed

theorem get_vip_ids_sorted_by_name_witness:
  "get_vip_ids [''76561198000000002 \"bob\"'', ''76561198000000001 alice ''] =
     Inr [\<lparr>steam_id_64 = ''76561198000000001'', name = ''alice''\<rparr>,
          \<lparr>steam_id_64 = ''76561198000000002'', name = ''bob''\<rparr>]
   \<and> get_vip_ids [''76561198000000001 alice '', ''76561198000000002 \"bob\"''] =
     Inr [\<lparr>steam_id_64 = ''76561198000000001'', name = ''alice''\<rparr>,
          \<lparr>steam_id_64 = ''76561198000000002'', name = ''bob''\<rparr>]
   \<and> (\<exists>l. get_vip_ids [''76561198000000002 \"bob\"'', ''76561198000000001 alice ''] = Inr l
          \<and> sorted (map name l))"
proof -
  have h: "get_vip_ids [''76561198000000002 \"bob\"'', ''76561198000000001 alice ''] =
     Inr [\<lparr>steam_id_64 = ''76561198000000001'', name = ''alice''\<rparr>,
          \<lparr>steam_id_64 = ''76561198000000002'', name = ''bob''\<rparr>]"
    by (simp add: get_vip_ids_def parse_vip_item_def str_defs)
  have h2: "get_vip_ids [''76561198000000001 alice '', ''76561198000000002 \"bob\"''] =
     Inr [\<lparr>steam_id_64 = ''76561198000000001'', name = ''alice''\<rparr>,
          \<lparr>steam_id_64 = ''76561198000000002'', name = ''bob''\<rparr>]"
    by (simp add: get_vip_ids_def parse_vip_item_def str_defs)
  have sp: "\<forall>item\<in>set [''76561198000000002 \"bob\"'', ''76561198000000001 alice ''].
              CHR '' '' \<in> set item"
    by simp
  from get_vip_ids_sorted_by_name [OF sp]
  have "\<exists>l. get_vip_ids [''76561198000000002 \"bob\"'', ''76561198000000001 alice ''] = Inr l
          \<and> sorted (map name l)"
    by blast
  with h h2 show ?thesis by blast
qed

end
